theory Spec2Isabelle
  imports Main "HOL-Library.Multiset"
begin

section \<open>Sortify: a shallow embedding of the playlist sorter\<close>

text \<open>
  The development follows the three source files that carry behaviour:
  \<^verbatim>\<open>src/App.tsx\<close> (comparators, \<^verbatim>\<open>chunkArray\<close>, the sort, the paginated track fetch and
  the playlist writer), \<^verbatim>\<open>src/lib/spotifyAuth.ts\<close> (token records, storage, the
  authorization completer and the token refresher) and \<^verbatim>\<open>src/lib/spotifyClient.ts\<close>
  (the authorized request pipeline).

  JavaScript numbers that the code only ever uses as integers (indices, millisecond
  instants, popularity, durations) are \<open>int\<close> or \<open>nat\<close>; the one place where the
  not-a-number value can arise from text (\<^verbatim>\<open>Number(...)\<close>, \<^verbatim>\<open>new Date(...).getTime()\<close>)
  is kept with the type \<open>jsnum\<close> below.
\<close>

subsection \<open>Numbers that may be NaN\<close>

datatype jsnum = Num int | NaN


fun js_times :: "jsnum \<Rightarrow> jsnum \<Rightarrow> jsnum" where
  "js_times (Num a) (Num b) = Num (a * b)"
| "js_times _ _ = NaN"


text \<open>
  \<^verbatim>\<open>Number(s)\<close> on text, for the spellings that matter here: the empty text is 0, a run
  of decimal digits is its value, and text with any other character (a letter, a colon,
  a comma, as in an HTTP date) is NaN. Signs, fractions, exponents, hexadecimal and
  surrounding blanks, which \<^verbatim>\<open>Number\<close> also reads, are not modelled and fall to NaN.
\<close>

definition isDigit :: "char \<Rightarrow> bool" where
  "isDigit c = (48 \<le> (of_char c :: nat) \<and> (of_char c :: nat) \<le> 57)"

definition decimalValue :: "string \<Rightarrow> nat" where
  "decimalValue s = foldl (\<lambda>acc c. acc * 10 + (of_char c - 48)) 0 s"

definition Number :: "string \<Rightarrow> jsnum" where
  "Number s = (if list_all isDigit s then Num (int (decimalValue s)) else NaN)"

subsection \<open>\<^verbatim>\<open>chunkArray\<close> (App.tsx)\<close>

text \<open>
  \<^verbatim>\<open>source.slice(i, i + chunkSize)\<close> for indices within the array.
\<close>

definition slice :: "'a list \<Rightarrow> nat \<Rightarrow> nat \<Rightarrow> 'a list" where
  "slice source i j = take (j - i) (drop i source)"

text \<open>
  The loop \<^verbatim>\<open>for (let i = 0; i < source.length; i += chunkSize) output.push(...)\<close>.
  With \<open>chunkSize = 0\<close> and a non-empty source the loop never ends; that is the value
  \<open>None\<close>.
\<close>

function chunkLoop :: "'a list \<Rightarrow> nat \<Rightarrow> nat \<Rightarrow> 'a list list \<Rightarrow> 'a list list option" where
  "chunkLoop source chunkSize i output =
     (if i < length source
      then (if chunkSize = 0 then None
            else chunkLoop source chunkSize (i + chunkSize)
                   (output @ [slice source i (i + chunkSize)]))
      else Some output)"
  by pat_completeness auto
termination
  by (relation "measure (\<lambda>(source, chunkSize, i, output). length source - i)") auto

definition chunkArray :: "'a list \<Rightarrow> nat \<Rightarrow> 'a list list option" where
  "chunkArray source chunkSize = chunkLoop source chunkSize 0 []"

subsection \<open>Rows, rules and the comparators (App.tsx)\<close>




record TrackRow =
  rowId :: string
  uri :: string
  name :: string
  artists :: string
  mainArtist :: string
  album :: string
  popularity :: "int option"
  durationMs :: int
  addedAt :: string
  originalIndex :: nat





subsection \<open>The multi-criterion sort (\<^verbatim>\<open>sortedTracks\<close>, App.tsx)\<close>












text \<open>The rows and rules of the scenario in the specification's testable properties.\<close>

definition scenarioRow :: "string \<Rightarrow> int \<Rightarrow> nat \<Rightarrow> TrackRow" where
  "scenarioRow n p i = \<lparr> rowId = n, uri = ''spotify:track:'' @ n, name = n, artists = ''x'',
     mainArtist = ''x'', album = ''y'', popularity = Some p, durationMs = 1000,
     addedAt = ''1700000000000'', originalIndex = i \<rparr>"




subsection \<open>Failures\<close>

text \<open>
  The \<^verbatim>\<open>throw new Error(...)\<close> of spotifyAuth.ts, a rejected \<^verbatim>\<open>fetch\<close> and a
  \<^verbatim>\<open>new URL\<close> that throws, as values. The source tells its errors apart by message only.
\<close>

datatype failure =
    MissingEnv string
  | StateMismatch
  | MissingVerifier
  | TokenExchangeFailed
  | MissingRefreshToken
  | SessionExpired
  | NetworkFailure
  | InvalidUrl

subsection \<open>The playlist writer (\<^verbatim>\<open>handleCreatePlaylist\<close>, App.tsx)\<close>

text \<open>\<^verbatim>\<open>String.prototype.trim\<close>, for the ASCII blanks (space, tab, LF, VT, FF, CR).\<close>

definition isBlank :: "char \<Rightarrow> bool" where
  "isBlank c = ((of_char c :: nat) \<in> {32, 9, 10, 11, 12, 13})"

definition trim :: "string \<Rightarrow> string" where
  "trim s = rev (dropWhile isBlank (rev (dropWhile isBlank s)))"

text \<open>
  The component state the handler reads: the selected playlist and the user (only
  their presence and the user's id matter), and the form fields.
\<close>

record create_form =
  selectedPlaylist :: "string option"
  user :: "string option"
  newPlaylistName :: string
  newPlaylistDescription :: string
  isPublic :: bool

datatype post_body = NewPlaylist string "string option" bool | AddTracks "string list"

text \<open>
  \<^verbatim>\<open>client.post(path, body)\<close> is a parameter: any function of the path, the body and the
  state of the outside world that fails or returns the reply's \<^verbatim>\<open>id\<close>, and leaves a new
  state. \<close>

type_synonym 'w poster = "string \<Rightarrow> post_body \<Rightarrow> 'w \<Rightarrow> (failure + string) \<times> 'w"

datatype create_outcome = NothingDone | NoValidTracks | NameRequired | Failed failure
  | Created | NeverEnds

text \<open>
  \<^verbatim>\<open>for (const chunk of chunkArray(uris, 100)) { await client.post(...) }\<close>: each call
  starts from the state the one before left; a failure ends the loop. The requests
  issued are collected in \<open>issued\<close>.
\<close>

fun submitBatches :: "'w poster \<Rightarrow> string \<Rightarrow> string list list \<Rightarrow> (string \<times> post_body) list \<Rightarrow> 'w
    \<Rightarrow> failure option \<times> (string \<times> post_body) list \<times> 'w" where
  "submitBatches post created_id [] issued w = (None, issued, w)"
| "submitBatches post created_id (chunk # rest) issued w =
     (let req = (''/playlists/'' @ created_id @ ''/tracks'', AddTracks chunk) in
      case post (fst req) (snd req) w of
        (Inl e, w') \<Rightarrow> (Some e, issued @ [req], w')
      | (Inr _, w') \<Rightarrow> submitBatches post created_id rest (issued @ [req]) w')"

text \<open>
  The handler, from the guard on \<^verbatim>\<open>selectedPlaylist\<close> and \<^verbatim>\<open>user\<close> to the end of the batch
  loop. The banner and form updates and the reload of the playlist list that follows a
  success (GET requests through \<^verbatim>\<open>fetchPlaylists\<close>) are left out.
\<close>

definition handleCreatePlaylist ::
  "'w poster \<Rightarrow> create_form \<Rightarrow> TrackRow list \<Rightarrow> 'w
    \<Rightarrow> create_outcome \<times> (string \<times> post_body) list \<times> 'w" where
  "handleCreatePlaylist post st rows w =
     (case (selectedPlaylist st, user st) of
        (Some _, Some user_id) \<Rightarrow>
          (let uris = filter (\<lambda>u. u \<noteq> []) (map uri rows) in
           if uris = [] then (NoValidTracks, [], w)
           else if trim (newPlaylistName st) = [] then (NameRequired, [], w)
           else
             (let req = (''/users/'' @ user_id @ ''/playlists'',
                         NewPlaylist (trim (newPlaylistName st))
                           (if trim (newPlaylistDescription st) = [] then None
                            else Some (trim (newPlaylistDescription st)))
                           (isPublic st)) in
              case post (fst req) (snd req) w of
                (Inl e, w') \<Rightarrow> (Failed e, [req], w')
              | (Inr created_id, w') \<Rightarrow>
                  (case chunkArray uris 100 of
                     None \<Rightarrow> (NeverEnds, [req], w')
                   | Some chunks \<Rightarrow>
                       (case submitBatches post created_id chunks [req] w' of
                          (Some e, issued, w'') \<Rightarrow> (Failed e, issued, w'')
                        | (None, issued, w'') \<Rightarrow> (Created, issued, w'')))))
      | _ \<Rightarrow> (NothingDone, [], w))"

text \<open>Issuing requests one after the other, each on the state the previous one left.\<close>

definition postInTurn :: "'w poster \<Rightarrow> (string \<times> post_body) list \<Rightarrow> 'w \<Rightarrow> 'w" where
  "postInTurn post reqs w = fold (\<lambda>req v. snd (post (fst req) (snd req) v)) reqs w"

definition batchRequest :: "string \<Rightarrow> string list \<Rightarrow> string \<times> post_body" where
  "batchRequest created_id chunk = (''/playlists/'' @ created_id @ ''/tracks'', AddTracks chunk)"

definition batchSize :: "string \<times> post_body \<Rightarrow> nat" where
  "batchSize req = (case snd req of AddTracks c \<Rightarrow> length c | NewPlaylist _ _ _ \<Rightarrow> 0)"

text \<open>A \<^verbatim>\<open>client.post\<close> that always succeeds, to instantiate the parameter with.\<close>

definition acceptingPost :: "nat poster" where
  "acceptingPost path body n = (Inr ''new'', Suc n)"
definition demoForm :: create_form where
  "demoForm = \<lparr> selectedPlaylist = Some ''source'', user = Some ''alice'',
                newPlaylistName = '' Sorted '', newPlaylistDescription = [], isPublic = False \<rparr>"

definition manyRows :: "nat \<Rightarrow> TrackRow list" where
  "manyRows n = map (scenarioRow ''t'' 0) [0..<n]"

subsection \<open>The paginated track fetch (\<^verbatim>\<open>fetchPlaylistTracks\<close>, App.tsx)\<close>

text \<open>
  The provider's JSON, as the interface \<^verbatim>\<open>SpotifyPlaylistTracksResponse\<close> declares it and as
  the code guards it: a field read with \<^verbatim>\<open>?.\<close> or \<^verbatim>\<open>??\<close>, or tested for truth, may be
  missing. \<open>track_artists\<close> holds the artists' names and \<open>track_album\<close> the album's name.
\<close>

record SpotifyTrack =
  track_id :: "string option"
  track_uri :: "string option"
  track_name :: string
  track_popularity :: "int option"
  duration_ms :: "int option"
  track_artists :: "string list option"
  track_album :: "string option"

record PlaylistItem =
  added_at :: string
  track :: "SpotifyTrack option"

record TracksPage =
  items :: "PlaylistItem list"
  next_url :: "string option"

text \<open>The label for a missing artist or album (Vietnamese for unknown), as UTF-8 bytes.\<close>

definition unknownLabel :: string where
  "unknownLabel = ''Kh'' @ [char_of (195::nat), char_of (180::nat)] @ ''ng r''
                    @ [char_of (195::nat), char_of (181::nat)]"

text \<open>Decimal digits of an index, for the template \<^verbatim>\<open>`${playlist.id}-${index}`\<close>.\<close>

fun showNat :: "nat \<Rightarrow> string" where
  "showNat n = (if n < 10 then [char_of (48 + n)]
                else showNat (n div 10) @ [char_of (48 + n mod 10)])"

declare showNat.simps [simp del]

fun joinWith :: "string \<Rightarrow> string list \<Rightarrow> string" where
  "joinWith sep [] = []"
| "joinWith sep [x] = x"
| "joinWith sep (x # y # ys) = x @ sep @ joinWith sep (y # ys)"

text \<open>The object literal pushed for an item whose track \<open>t\<close> has the URI \<open>u\<close>.\<close>

definition makeRow :: "string \<Rightarrow> nat \<Rightarrow> PlaylistItem \<Rightarrow> SpotifyTrack \<Rightarrow> string \<Rightarrow> TrackRow" where
  "makeRow playlist_id index item t u =
     \<lparr> rowId = (case track_id t of Some i \<Rightarrow> i | None \<Rightarrow> playlist_id @ ''-'' @ showNat index),
       uri = u,
       name = track_name t,
       artists = (case track_artists t of Some as \<Rightarrow> joinWith '', '' as | None \<Rightarrow> unknownLabel),
       mainArtist = (case track_artists t of Some (a # _) \<Rightarrow> a | _ \<Rightarrow> unknownLabel),
       album = (case track_album t of Some n \<Rightarrow> n | None \<Rightarrow> unknownLabel),
       popularity = track_popularity t,
       durationMs = (case duration_ms t of Some d \<Rightarrow> d | None \<Rightarrow> 0),
       addedAt = added_at item,
       originalIndex = index \<rparr>"

text \<open>
  The inner loop \<^verbatim>\<open>for (const item of response.items)\<close>: an item with no track, or whose
  track has no URI or an empty one, is passed over (\<^verbatim>\<open>continue\<close>) and leaves \<open>index\<close> as
  it is.
\<close>

fun processItems :: "string \<Rightarrow> PlaylistItem list \<Rightarrow> TrackRow list \<Rightarrow> nat \<Rightarrow> TrackRow list \<times> nat" where
  "processItems playlist_id [] collected index = (collected, index)"
| "processItems playlist_id (item # rest) collected index =
     (case track item of
        None \<Rightarrow> processItems playlist_id rest collected index
      | Some t \<Rightarrow>
          (case track_uri t of
             None \<Rightarrow> processItems playlist_id rest collected index
           | Some u \<Rightarrow>
               if u = [] then processItems playlist_id rest collected index
               else processItems playlist_id rest
                      (collected @ [makeRow playlist_id index item t u]) (index + 1)))"

text \<open>
  The outer loop \<^verbatim>\<open>while (url)\<close>. \<^verbatim>\<open>client.get\<close> answers from a script: the outcomes, in
  order, of the successive page requests (a failure or a page). When the script is used
  up while a request is pending the fetch has not returned: the result is \<open>None\<close>. The
  parameter \<open>rel\<close> is \<^verbatim>\<open>new URL(next)\<close> followed by \<^verbatim>\<open>pathname + search\<close>; it is \<open>None\<close> where
  \<^verbatim>\<open>new URL\<close> throws. The second component lists the URLs requested.
\<close>

fun trackLoop :: "(string \<Rightarrow> string option) \<Rightarrow> string \<Rightarrow> (failure + TracksPage) list \<Rightarrow> string
    \<Rightarrow> TrackRow list \<Rightarrow> nat \<Rightarrow> string list \<Rightarrow> (failure + TrackRow list) option \<times> string list" where
  "trackLoop rel playlist_id [] url collected index requested = (None, requested @ [url])"
| "trackLoop rel playlist_id (Inl e # script) url collected index requested =
     (Some (Inl e), requested @ [url])"
| "trackLoop rel playlist_id (Inr response # script) url collected index requested =
     (case processItems playlist_id (items response) collected index of
        (collected', index') \<Rightarrow>
          (case next_url response of
             None \<Rightarrow> (Some (Inr collected'), requested @ [url])
           | Some n \<Rightarrow>
               if n = [] then (Some (Inr collected'), requested @ [url])
               else (case rel n of
                       None \<Rightarrow> (Some (Inl InvalidUrl), requested @ [url])
                     | Some url' \<Rightarrow>
                         if url' = [] then (Some (Inr collected'), requested @ [url])
                         else trackLoop rel playlist_id script url' collected' index'
                                (requested @ [url]))))"

definition fetchPlaylistTracks :: "(string \<Rightarrow> string option) \<Rightarrow> (failure + TracksPage) list \<Rightarrow> string
    \<Rightarrow> (failure + TrackRow list) option \<times> string list" where
  "fetchPlaylistTracks rel script playlist_id =
     trackLoop rel playlist_id script (''/playlists/'' @ playlist_id @ ''/tracks?limit=100'') [] 0 []"

text \<open>An item that yields a row, a page that names a next page, and the rows of a run of items.\<close>

definition playable :: "PlaylistItem \<Rightarrow> bool" where
  "playable item = (case track item of None \<Rightarrow> False
                    | Some t \<Rightarrow> (case track_uri t of None \<Rightarrow> False | Some u \<Rightarrow> u \<noteq> []))"

definition nextAbsent :: "TracksPage \<Rightarrow> bool" where
  "nextAbsent p = (next_url p = None \<or> next_url p = Some [])"

definition nextPath :: "(string \<Rightarrow> string option) \<Rightarrow> TracksPage \<Rightarrow> string option" where
  "nextPath rel p = (case next_url p of None \<Rightarrow> None | Some n \<Rightarrow> if n = [] then None else rel n)"

definition followsOn :: "(string \<Rightarrow> string option) \<Rightarrow> TracksPage \<Rightarrow> bool" where
  "followsOn rel p = (case nextPath rel p of None \<Rightarrow> False | Some u \<Rightarrow> u \<noteq> [])"

definition rowsOf :: "string \<Rightarrow> nat \<Rightarrow> PlaylistItem list \<Rightarrow> TrackRow list" where
  "rowsOf playlist_id index its =
     map (\<lambda>(k, item). makeRow playlist_id k item (the (track item))
                        (the (track_uri (the (track item)))))
         (enumerate index (filter playable its))"
text \<open>
  An instance of \<open>rel\<close> for \<^verbatim>\<open>https\<close> URLs: what follows the host, or \<^verbatim>\<open>/\<close> when nothing
  does; and two pages to run the fetch on.
\<close>

definition pathAndSearch :: "string \<Rightarrow> string option" where
  "pathAndSearch s =
     (if take 8 s = ''https://''
      then (let r = dropWhile (\<lambda>c. c \<noteq> CHR ''/'') (drop 8 s) in Some (if r = [] then ''/'' else r))
      else None)"

definition demoTrack :: "string \<Rightarrow> SpotifyTrack" where
  "demoTrack u = \<lparr> track_id = None, track_uri = Some u, track_name = ''song'',
     track_popularity = None, duration_ms = Some 1000, track_artists = Some [''a'', ''b''],
     track_album = None \<rparr>"

definition demoItem :: "SpotifyTrack option \<Rightarrow> PlaylistItem" where
  "demoItem t = \<lparr> added_at = ''1700000000000'', track = t \<rparr>"

definition demoPage1 :: TracksPage where
  "demoPage1 = \<lparr> items = [demoItem (Some (demoTrack ''spotify:track:a'')), demoItem None,
                          demoItem (Some (demoTrack ''spotify:track:b''))],
                 next_url = Some ''https://api.spotify.com/v1/playlists/p/tracks?offset=100'' \<rparr>"

definition demoPage2 :: TracksPage where
  "demoPage2 = \<lparr> items = [demoItem (Some (demoTrack [])),
                          demoItem (Some (demoTrack ''spotify:track:c''))],
                 next_url = None \<rparr>"

subsection \<open>Token records, storage and the token endpoint (spotifyAuth.ts)\<close>

record TokenSet =
  accessToken :: string
  refreshToken :: string
  expiresAt :: int
  scope :: string

text \<open>\<^verbatim>\<open>TokenEndpointResponse\<close>; the constant \<^verbatim>\<open>token_type\<close> is left out.\<close>

record TokenEndpointResponse =
  access_token :: string
  refresh_token :: "string option"
  expires_in :: int
  granted_scope :: string

text \<open>
  What a POST to the token endpoint can come to: a success with its JSON body, a
  response that is not \<^verbatim>\<open>ok\<close>, or a rejected \<^verbatim>\<open>fetch\<close> (also a body that is not JSON).
\<close>

datatype token_reply = TokenGranted TokenEndpointResponse | TokenRefused | TokenUnreachable

text \<open>Of a response of the resource API the pipeline reads the status and one header.\<close>

record http_response =
  status :: nat
  retry_after :: "string option"

datatype api_reply = Answered http_response | Unreachable

datatype event =
    TokenPost string string
  | ApiFetch string "(string \<times> string) list"
  | Wait jsnum

text \<open>
  Everything outside the functions: the build-time configuration, the clock
  (\<^verbatim>\<open>Date.now()\<close>), the three storage entries, the two servers and a log of what was sent.
  A server is a script: its \<open>k\<close>-th answer and the milliseconds it takes. Any server is
  such a script along one run, whatever it makes its answers depend on.
\<close>

record world =
  client_id :: "string option"
  redirect_uri :: "string option"
  now :: int
  stored_tokens :: "TokenSet option"
  stored_state :: "string option"
  stored_verifier :: "string option"
  token_endpoint :: "nat \<Rightarrow> nat \<times> token_reply"
  token_posts :: nat
  resource_api :: "nat \<Rightarrow> nat \<times> api_reply"
  api_fetches :: nat
  events :: "event list"

definition assertEnv :: "string \<Rightarrow> string option \<Rightarrow> failure + string" where
  "assertEnv nm v = (case v of None \<Rightarrow> Inl (MissingEnv nm)
                      | Some s \<Rightarrow> if s = [] then Inl (MissingEnv nm) else Inr s)"

definition storeTokens :: "TokenSet \<Rightarrow> world \<Rightarrow> world" where
  "storeTokens tokenSet w = w\<lparr> stored_tokens := Some tokenSet \<rparr>"

definition clearStoredAuth :: "world \<Rightarrow> world" where
  "clearStoredAuth w = w\<lparr> stored_tokens := None, stored_verifier := None, stored_state := None \<rparr>"

text \<open>
  \<^verbatim>\<open>data.refresh_token ?? previousRefreshToken\<close> followed by the test \<^verbatim>\<open>!refreshToken\<close>, which
  an absent and an empty token both fail. The first argument is \<^verbatim>\<open>Date.now()\<close>.
\<close>

definition buildTokenSet :: "int \<Rightarrow> TokenEndpointResponse \<Rightarrow> string option \<Rightarrow> failure + TokenSet" where
  "buildTokenSet t data previousRefreshToken =
     (case (case refresh_token data of Some r \<Rightarrow> Some r | None \<Rightarrow> previousRefreshToken) of
        None \<Rightarrow> Inl MissingRefreshToken
      | Some r \<Rightarrow>
          if r = [] then Inl MissingRefreshToken
          else Inr \<lparr> accessToken = access_token data, refreshToken = r,
                     expiresAt = t + expires_in data * 1000, scope = granted_scope data \<rparr>)"

text \<open>The \<^verbatim>\<open>fetch\<close> of the token endpoint, with the grant type and the credential it carries.\<close>

definition postToken :: "string \<Rightarrow> string \<Rightarrow> world \<Rightarrow> token_reply \<times> world" where
  "postToken grant credential w =
     (case token_endpoint w (token_posts w) of
        (d, reply) \<Rightarrow>
          (reply, w\<lparr> now := now w + int d, token_posts := Suc (token_posts w),
                      events := events w @ [TokenPost grant credential] \<rparr>))"

definition completeAuthorization :: "string \<Rightarrow> string \<Rightarrow> world \<Rightarrow> (failure + TokenSet) \<times> world" where
  "completeAuthorization code returnedState w =
     (case assertEnv ''VITE_SPOTIFY_CLIENT_ID'' (client_id w) of
        Inl e \<Rightarrow> (Inl e, w)
      | Inr clientId \<Rightarrow>
     (case assertEnv ''VITE_SPOTIFY_REDIRECT_URI'' (redirect_uri w) of
        Inl e \<Rightarrow> (Inl e, w)
      | Inr redirectUri \<Rightarrow>
          if stored_state w = None \<or> stored_state w = Some [] \<or> Some returnedState \<noteq> stored_state w
          then (Inl StateMismatch, w)
          else if stored_verifier w = None \<or> stored_verifier w = Some []
          then (Inl MissingVerifier, w)
          else
            (case postToken ''authorization_code'' code w of
               (TokenUnreachable, w1) \<Rightarrow> (Inl NetworkFailure, w1)
             | (TokenRefused, w1) \<Rightarrow> (Inl TokenExchangeFailed, w1)
             | (TokenGranted data, w1) \<Rightarrow>
                 (case buildTokenSet (now w1) data None of
                    Inl e \<Rightarrow> (Inl e, w1)
                  | Inr tokenSet \<Rightarrow>
                      (Inr tokenSet,
                       (storeTokens tokenSet w1)\<lparr> stored_state := None, stored_verifier := None \<rparr>)))))"

definition refreshAccessToken :: "TokenSet \<Rightarrow> world \<Rightarrow> (failure + TokenSet) \<times> world" where
  "refreshAccessToken previous w =
     (case assertEnv ''VITE_SPOTIFY_CLIENT_ID'' (client_id w) of
        Inl e \<Rightarrow> (Inl e, w)
      | Inr clientId \<Rightarrow>
          (case postToken ''refresh_token'' (refreshToken previous) w of
             (TokenUnreachable, w1) \<Rightarrow> (Inl NetworkFailure, w1)
           | (TokenRefused, w1) \<Rightarrow> (Inl SessionExpired, clearStoredAuth w1)
           | (TokenGranted data, w1) \<Rightarrow>
               (case buildTokenSet (now w1) data (Some (refreshToken previous)) of
                  Inl e \<Rightarrow> (Inl e, w1)
                | Inr tokenSet \<Rightarrow> (Inr tokenSet, storeTokens tokenSet w1))))"

text \<open>A world to run the functions in: a login is pending and both servers answer.\<close>

definition grantedReply :: "string option \<Rightarrow> TokenEndpointResponse" where
  "grantedReply r = \<lparr> access_token = ''fresh-access'', refresh_token = r, expires_in = 3600,
                       granted_scope = ''playlist-read-private'' \<rparr>"

definition demoWorld :: "(nat \<Rightarrow> nat \<times> token_reply) \<Rightarrow> (nat \<Rightarrow> nat \<times> api_reply) \<Rightarrow> world" where
  "demoWorld ts api = \<lparr> client_id = Some ''client'', redirect_uri = Some ''http://localhost:5173/callback'',
     now = 1000000, stored_tokens = None, stored_state = Some ''expected'',
     stored_verifier = Some ''verifier'', token_endpoint = ts, token_posts = 0,
     resource_api = api, api_fetches = 0, events = [] \<rparr>"

definition staleTokens :: TokenSet where
  "staleTokens = \<lparr> accessToken = ''stale-access'', refreshToken = ''old-refresh'',
                    expiresAt = 1030000, scope = ''playlist-read-private'' \<rparr>"

text \<open>A resource API that cannot be reached, for runs that never call it.\<close>

definition noApi :: "nat \<Rightarrow> nat \<times> api_reply" where
  "noApi k = (0, Unreachable)"

subsection \<open>The authorized request pipeline (spotifyClient.ts)\<close>

definition API_BASE :: string where
  "API_BASE = ''https://api.spotify.com/v1''"

text \<open>
  \<^verbatim>\<open>RequestInit\<close>, as far as the pipeline looks at it. Header names are taken in lower
  case, as \<^verbatim>\<open>Headers\<close> keeps them. A body is text (what \<^verbatim>\<open>JSON.stringify\<close> gave) or a form.
\<close>

datatype request_body = TextBody string | FormBody

record request_init =
  http_method :: string
  headers :: "(string \<times> string) list"
  body :: "request_body option"

definition setHeader :: "string \<Rightarrow> string \<Rightarrow> (string \<times> string) list \<Rightarrow> (string \<times> string) list" where
  "setHeader k v hs = (k, v) # filter (\<lambda>p. fst p \<noteq> k) hs"

definition hasHeader :: "string \<Rightarrow> (string \<times> string) list \<Rightarrow> bool" where
  "hasHeader k hs = list_ex (\<lambda>p. fst p = k) hs"

text \<open>The state of a \<^verbatim>\<open>SpotifyClient\<close>; the observer \<^verbatim>\<open>onTokenRefresh\<close> is the caller's and is left out.\<close>

record client =
  tokens :: TokenSet

definition ensureFreshAccessToken :: "client \<Rightarrow> world \<Rightarrow> (failure + string) \<times> client \<times> world" where
  "ensureFreshAccessToken c w =
     (let safetyWindow = 60000 in
      if now w + safetyWindow < expiresAt (tokens c) then (Inr (accessToken (tokens c)), c, w)
      else
        (case refreshAccessToken (tokens c) w of
           (Inl e, w1) \<Rightarrow> (Inl e, c, w1)
         | (Inr refreshed, w1) \<Rightarrow> (Inr (accessToken refreshed), c\<lparr> tokens := refreshed \<rparr>, w1)))"

text \<open>The URL and the headers that \<^verbatim>\<open>authorizedFetch\<close> computes before it calls \<^verbatim>\<open>fetch\<close>.\<close>

definition requestUrl :: "string \<Rightarrow> string" where
  "requestUrl input = (if take 4 input = ''http'' then input else API_BASE @ input)"

definition requestHeaders :: "request_init \<Rightarrow> string \<Rightarrow> (string \<times> string) list" where
  "requestHeaders init token =
     (let hs = setHeader ''authorization'' (''Bearer '' @ token) (headers init) in
      if \<not> hasHeader ''content-type'' hs \<and>
         (case body init of Some (TextBody b) \<Rightarrow> b \<noteq> [] | _ \<Rightarrow> False)
      then setHeader ''content-type'' ''application/json'' hs
      else hs)"

text \<open>The \<^verbatim>\<open>fetch\<close> of the resource API: the next answer of the script, logged with what was sent.\<close>

definition apiFetch :: "string \<Rightarrow> (string \<times> string) list \<Rightarrow> world \<Rightarrow> api_reply \<times> world" where
  "apiFetch url hs w =
     (case resource_api w (api_fetches w) of
        (d, reply) \<Rightarrow>
          (reply, w\<lparr> now := now w + int d, api_fetches := Suc (api_fetches w),
                      events := events w @ [ApiFetch url hs] \<rparr>))"

text \<open>
  \<^verbatim>\<open>Number(response.headers.get('retry-after') ?? '2') * 1000\<close>, and the wait
  \<^verbatim>\<open>await new Promise((resolve) => setTimeout(resolve, retryAfter))\<close>: a timer takes a NaN
  or negative delay as zero.
\<close>

definition retryAfterMs :: "http_response \<Rightarrow> jsnum" where
  "retryAfterMs response =
     js_times (Number (case retry_after response of None \<Rightarrow> ''2'' | Some h \<Rightarrow> h)) (Num 1000)"

definition sleep :: "jsnum \<Rightarrow> world \<Rightarrow> world" where
  "sleep ms w = w\<lparr> now := now w + (case ms of NaN \<Rightarrow> 0 | Num v \<Rightarrow> max 0 v),
                    events := events w @ [Wait ms] \<rparr>"

text \<open>
  \<^verbatim>\<open>authorizedFetch(input, init, attempt)\<close>. The method calls itself after a 401 on the
  first attempt and after every 429, so it need not return; the first argument bounds
  the number of requests, and \<open>None\<close> says that the bound was reached with the call
  still under way. The methods \<^verbatim>\<open>get\<close>, \<^verbatim>\<open>post\<close> and \<^verbatim>\<open>put\<close> call it with \<open>attempt = 0\<close>.
\<close>

fun authorizedFetch :: "nat \<Rightarrow> string \<Rightarrow> request_init \<Rightarrow> nat \<Rightarrow> client \<Rightarrow> world
    \<Rightarrow> (failure + http_response) option \<times> client \<times> world" where
  "authorizedFetch 0 input init attempt c w = (None, c, w)"
| "authorizedFetch (Suc fuel) input init attempt c w =
     (case ensureFreshAccessToken c w of
        (Inl e, c1, w1) \<Rightarrow> (Some (Inl e), c1, w1)
      | (Inr token, c1, w1) \<Rightarrow>
          (case apiFetch (requestUrl input) (requestHeaders init token) w1 of
             (Unreachable, w2) \<Rightarrow> (Some (Inl NetworkFailure), c1, w2)
           | (Answered response, w2) \<Rightarrow>
               if status response = 401 \<and> attempt = 0 then
                 (case refreshAccessToken (tokens c1) w2 of
                    (Inl e, w3) \<Rightarrow> (Some (Inl e), c1, w3)
                  | (Inr refreshed, w3) \<Rightarrow>
                      authorizedFetch fuel input init (attempt + 1) (c1\<lparr> tokens := refreshed \<rparr>) w3)
               else if status response = 429 then
                 authorizedFetch fuel input init (attempt + 1) c1 (sleep (retryAfterMs response) w2)
               else (Some (Inr response), c1, w2)))"

text \<open>Two kinds of surroundings: the token endpoint always grants, the API always answers 429.\<close>

definition alwaysGrants :: "world \<Rightarrow> bool" where
  "alwaysGrants w =
     ((\<exists>cid. client_id w = Some cid \<and> cid \<noteq> []) \<and>
      (\<forall>k. \<exists>d data r. token_endpoint w k = (d, TokenGranted data) \<and>
                       refresh_token data = Some r \<and> r \<noteq> []))"

definition alwaysRateLimited :: "world \<Rightarrow> bool" where
  "alwaysRateLimited w = (\<forall>k. \<exists>d r. resource_api w k = (d, Answered r) \<and> status r = 429)"

definition demoInit :: request_init where
  "demoInit = \<lparr> http_method = ''GET'', headers = [], body = None \<rparr>"

definition replyWith :: "nat \<Rightarrow> string option \<Rightarrow> nat \<times> api_reply" where
  "replyWith s h = (0, Answered \<lparr> status = s, retry_after = h \<rparr>)"

text \<open>A client whose token is about to expire, and one whose token is good for an hour.\<close>

definition staleClient :: client where
  "staleClient = \<lparr> tokens = staleTokens \<rparr>"

definition freshClient :: client where
  "freshClient = \<lparr> tokens = staleTokens\<lparr> accessToken := ''good-access'', expiresAt := 4600000 \<rparr> \<rparr>"

text \<open>
  Worlds whose API answers 401 to everything, 429 to everything, 429 once with an HTTP
  date, or 429 and then 401.
\<close>

definition grantingEndpoint :: "nat \<Rightarrow> nat \<times> token_reply" where
  "grantingEndpoint k = (5, TokenGranted (grantedReply (Some ''new-refresh'')))"

definition world401 :: world where
  "world401 = demoWorld grantingEndpoint (\<lambda>k. replyWith 401 None)"

definition world429 :: world where
  "world429 = demoWorld grantingEndpoint (\<lambda>k. replyWith 429 None)"

definition worldHttpDate :: world where
  "worldHttpDate = demoWorld grantingEndpoint
     (\<lambda>k. if k = 0 then replyWith 429 (Some ''Wed, 21 Oct 2015 07:28:00 GMT'')
           else replyWith 200 None)"

definition world429then401 :: world where
  "world429then401 = demoWorld grantingEndpoint
     (\<lambda>k. if k = 0 then replyWith 429 None else if k = 1 then replyWith 401 None
           else replyWith 200 None)"

subsection \<open>\<^verbatim>\<open>loadStoredTokens\<close> (spotifyAuth.ts)\<close>

text \<open>
  The stored entry is text; \<^verbatim>\<open>JSON.parse\<close> is the platform's and is a parameter, \<open>None\<close>
  where it throws a \<^verbatim>\<open>SyntaxError\<close>. A \<open>JObject\<close> lists the properties of the object.
\<close>

datatype json = JNull | JBool bool | JNumber int | JString string | JArray "json list"
  | JObject "(string \<times> json) list"

datatype js_exception = SyntaxError | TypeError

text \<open>
  Reading a property that no string, number, boolean or array has (such as
  \<^verbatim>\<open>accessToken\<close>): \<^verbatim>\<open>null\<close> throws, an object gives the property or \<^verbatim>\<open>undefined\<close>,
  anything else gives \<^verbatim>\<open>undefined\<close> (\<open>None\<close>).
\<close>

fun readProp :: "json \<Rightarrow> string \<Rightarrow> js_exception + json option" where
  "readProp JNull k = Inl TypeError"
| "readProp (JObject kvs) k = Inr (map_of kvs k)"
| "readProp _ k = Inr None"

text \<open>\<^verbatim>\<open>typeof x === 'string'\<close>.\<close>

fun isString :: "json option \<Rightarrow> bool" where
  "isString (Some (JString _)) = True"
| "isString _ = False"

text \<open>The body of the \<^verbatim>\<open>try\<close> block: what it returns (\<open>None\<close>: it falls through), or what it throws.\<close>

definition tryParse :: "(string \<Rightarrow> json option) \<Rightarrow> string \<Rightarrow> js_exception + json option" where
  "tryParse parse raw =
     (case parse raw of
        None \<Rightarrow> Inl SyntaxError
      | Some parsed \<Rightarrow>
          (case readProp parsed ''accessToken'' of
             Inl e \<Rightarrow> Inl e
           | Inr a \<Rightarrow>
               if isString a
               then (case readProp parsed ''refreshToken'' of
                       Inl e \<Rightarrow> Inl e
                     | Inr r \<Rightarrow> if isString r then Inr (Some parsed) else Inr None)
               else Inr None))"

text \<open>
  \<open>stored\<close> is what \<^verbatim>\<open>localStorage.getItem\<close> returned. The \<^verbatim>\<open>catch\<close> turns whatever the
  body threw into a warning on the console and the final \<^verbatim>\<open>return null\<close>.
\<close>

definition loadStoredTokens :: "(string \<Rightarrow> json option) \<Rightarrow> string option \<Rightarrow> json option" where
  "loadStoredTokens parse stored =
     (case stored of
        None \<Rightarrow> None
      | Some raw \<Rightarrow>
          if raw = [] then None
          else (case tryParse parse raw of Inl e \<Rightarrow> None | Inr r \<Rightarrow> r))"

definition hasStringProp :: "json \<Rightarrow> string \<Rightarrow> bool" where
  "hasStringProp v k = (case readProp v k of Inr p \<Rightarrow> isString p | Inl e \<Rightarrow> False)"

text \<open>A stand-in for \<^verbatim>\<open>JSON.parse\<close> that knows four texts.\<close>

definition demoParse :: "string \<Rightarrow> json option" where
  \<open>demoParse s =
     (if s = ''{"accessToken":"a","refreshToken":"r","expiresAt":"soon"}''
      then Some (JObject [(''accessToken'', JString ''a''), (''refreshToken'', JString ''r''),
                          (''expiresAt'', JString ''soon'')])
      else if s = ''{"accessToken":"a","refreshToken":7}''
      then Some (JObject [(''accessToken'', JString ''a''), (''refreshToken'', JNumber 7)])
      else if s = ''null'' then Some JNull
      else if s = ''[]'' then Some (JArray [])
      else None)\<close>

section \<open>Properties\<close>

declare chunkLoop.simps [simp del]

lemma chunkLoop_spec:
  "0 < n \<Longrightarrow> i \<le> length xs \<Longrightarrow>
   \<exists>cs. chunkLoop xs n i out = Some (out @ cs) \<and> concat cs = drop i xs \<and>
        (\<forall>c \<in> set cs. c \<noteq> [] \<and> length c \<le> n) \<and>
        (\<forall>k. Suc k < length cs \<longrightarrow> length (cs ! k) = n) \<and>
        length cs = (length xs - i + n - 1) div n"
proof (induction xs n i out rule: chunkLoop.induct)
  case (1 source chunkSize i outp)
  show ?case
  proof (cases "i < length source")
    case False
    with 1(2,3) show ?thesis
      by (subst chunkLoop.simps) (simp add: div_eq_0_iff)
  next
    case True
    let ?c = "slice source i (i + chunkSize)"
    let ?j = "min (i + chunkSize) (length source)"
    show ?thesis
    proof (cases "i + chunkSize \<le> length source")
      case le: True
      from 1(1)[OF True _ 1(2) le] 1(2)
      obtain cs where cs:
        "chunkLoop source chunkSize (i + chunkSize) (outp @ [?c]) = Some ((outp @ [?c]) @ cs)"
        "concat cs = drop (i + chunkSize) source"
        "\<forall>c \<in> set cs. c \<noteq> [] \<and> length c \<le> chunkSize"
        "\<forall>k. Suc k < length cs \<longrightarrow> length (cs ! k) = chunkSize"
        "length cs = (length source - (i + chunkSize) + chunkSize - 1) div chunkSize"
        by auto
      have lc: "length ?c = chunkSize" using le by (simp add: slice_def)
      have "chunkLoop source chunkSize i outp = Some (outp @ (?c # cs))"
        using True 1(2) cs(1) by (subst chunkLoop.simps) simp
      moreover have "concat (?c # cs) = drop i source"
        using cs(2) by (simp add: slice_def add.commute take_add[symmetric] flip: drop_drop)
      moreover have "\<forall>c \<in> set (?c # cs). c \<noteq> [] \<and> length c \<le> chunkSize"
        using cs(3) lc 1(2) by auto
      moreover have "\<forall>k. Suc k < length (?c # cs) \<longrightarrow> length ((?c # cs) ! k) = chunkSize"
        using cs(4) lc by (auto simp: nth_Cons split: nat.splits)
      moreover have "length (?c # cs) = (length source - i + chunkSize - 1) div chunkSize"
      proof -
        define m where "m = length source - (i + chunkSize) + chunkSize - 1"
        have e: "length source - i + chunkSize - 1 = m + chunkSize"
          using le 1(2) by (simp add: m_def)
        have d: "(m + chunkSize) div chunkSize = Suc (m div chunkSize)"
          using 1(2) by (simp add: div_add_self2)
        have "length (?c # cs) = Suc (m div chunkSize)"
          using cs(5) by (simp add: m_def)
        also have "\<dots> = (m + chunkSize) div chunkSize"
          using d by simp
        also have "\<dots> = (length source - i + chunkSize - 1) div chunkSize"
          by (simp only: e)
        finally show ?thesis .
      qed
      ultimately show ?thesis by blast
    next
      case gt: False
      have stop: "chunkLoop source chunkSize (i + chunkSize) (outp @ [?c]) = Some (outp @ [?c])"
        using gt by (subst chunkLoop.simps) simp
      have lc: "length ?c = length source - i" using gt by (simp add: slice_def)
      have "chunkLoop source chunkSize i outp = Some (outp @ [?c])"
        using True 1(2) stop by (subst chunkLoop.simps) simp
      moreover have "concat [?c] = drop i source"
        using gt by (simp add: slice_def)
      moreover have "\<forall>c \<in> set [?c]. c \<noteq> [] \<and> length c \<le> chunkSize"
        using lc True gt by auto
      moreover have "\<forall>k. Suc k < length [?c] \<longrightarrow> length ([?c] ! k) = chunkSize"
        by simp
      moreover have "length [?c] = (length source - i + chunkSize - 1) div chunkSize"
      proof -
        have "0 < length source - i" "length source - i < chunkSize" using True gt by auto
        then have "(length source - i + chunkSize - 1) div chunkSize = 1"
          by (simp add: div_nat_eqI)
        then show ?thesis by simp
      qed
      ultimately show ?thesis by blast
    qed
  qed
qed


lemma chunkArray_spec:
  assumes "0 < n"
  shows "\<exists>cs. chunkArray xs n = Some cs \<and> concat cs = xs \<and>
        (\<forall>c \<in> set cs. c \<noteq> [] \<and> length c \<le> n) \<and>
        (\<forall>k. Suc k < length cs \<longrightarrow> length (cs ! k) = n) \<and>
        length cs = (length xs + n - 1) div n"
  using chunkLoop_spec[OF assms, of 0 xs "[]"] by (simp add: chunkArray_def)

lemma chunkArray_250:
  assumes "length xs = 250"
  shows "chunkArray xs 100 = Some [take 100 xs, take 100 (drop 100 xs), drop 200 xs]"
proof -
  have "chunkLoop xs 100 300 [take 100 xs, take 100 (drop 100 xs), drop 200 xs]
        = Some [take 100 xs, take 100 (drop 100 xs), drop 200 xs]"
    using assms by (subst chunkLoop.simps) simp
  then have "chunkLoop xs 100 200 [take 100 xs, take 100 (drop 100 xs)]
        = Some [take 100 xs, take 100 (drop 100 xs), drop 200 xs]"
    using assms by (subst chunkLoop.simps) (simp add: slice_def)
  then have "chunkLoop xs 100 100 [take 100 xs]
        = Some [take 100 xs, take 100 (drop 100 xs), drop 200 xs]"
    using assms by (subst chunkLoop.simps) (simp add: slice_def)
  then show ?thesis
    using assms unfolding chunkArray_def by (subst chunkLoop.simps) (simp add: slice_def)
qed

subsection \<open>Composing comparators\<close>







subsection \<open>The comparator of the sort is consistent\<close>








subsection \<open>The stable insertion sort, and uniqueness of a sorted arrangement\<close>












subsection \<open>The order of the sort\<close>





subsection \<open>The multi-criterion sort (C1)\<close>





subsection \<open>The playlist writer (C8)\<close>

lemma submitBatches_spec:
  "submitBatches post cid chunks issued w = (res, issued', w') \<Longrightarrow>
   \<exists>k \<le> length chunks. issued' = issued @ map (batchRequest cid) (take k chunks) \<and>
      (res = None \<longrightarrow> k = length chunks) \<and>
      w' = postInTurn post (map (batchRequest cid) (take k chunks)) w"
proof (induction chunks arbitrary: issued w)
  case Nil
  then show ?case by (simp add: postInTurn_def)
next
  case (Cons chunk rest)
  obtain r v where p: "post (''/playlists/'' @ cid @ ''/tracks'') (AddTracks chunk) w = (r, v)"
    by (cases "post (''/playlists/'' @ cid @ ''/tracks'') (AddTracks chunk) w")
  show ?case
  proof (cases r)
    case (Inl e)
    then have "issued' = issued @ map (batchRequest cid) (take 1 (chunk # rest))"
      and "res = Some e" and "w' = v"
      using Cons.prems p by (simp_all add: batchRequest_def)
    moreover have "v = postInTurn post (map (batchRequest cid) (take 1 (chunk # rest))) w"
      using p by (simp add: postInTurn_def batchRequest_def)
    ultimately show ?thesis by (intro exI[of _ 1]) simp
  next
    case (Inr x)
    then have "submitBatches post cid rest (issued @ [batchRequest cid chunk]) v = (res, issued', w')"
      using Cons.prems p by (simp add: batchRequest_def)
    from Cons.IH[OF this] obtain k where k: "k \<le> length rest"
      "issued' = (issued @ [batchRequest cid chunk]) @ map (batchRequest cid) (take k rest)"
      "res = None \<longrightarrow> k = length rest"
      "w' = postInTurn post (map (batchRequest cid) (take k rest)) v"
      by blast
    have "w' = postInTurn post (map (batchRequest cid) (take (Suc k) (chunk # rest))) w"
      using k(4) p by (simp add: postInTurn_def batchRequest_def)
    then show ?thesis using k(1,2,3) by (intro exI[of _ "Suc k"]) simp
  qed
qed

lemma submitBatches_accepted:
  assumes "\<And>path body v. \<exists>i v'. post path body v = (Inr i, v')"
  shows "fst (submitBatches post cid chunks issued w) = None"
proof (induction chunks arbitrary: issued w)
  case Nil
  then show ?case by simp
next
  case (Cons chunk rest)
  obtain i v' where "post (''/playlists/'' @ cid @ ''/tracks'') (AddTracks chunk) w = (Inr i, v')"
    using assms by blast
  then show ?case using Cons.IH by simp
qed

lemma handleCreatePlaylist_accepted:
  assumes "\<And>path body v. \<exists>i v'. post path body v = (Inr i, v')"
    and "selectedPlaylist st = Some sel" "user st = Some uid" "trim (newPlaylistName st) \<noteq> []"
    and "filter (\<lambda>u. u \<noteq> []) (map uri rows) \<noteq> []"
  shows "fst (handleCreatePlaylist post st rows w) = Created"
proof -
  let ?uris = "filter (\<lambda>u. u \<noteq> []) (map uri rows)"
  let ?body = "NewPlaylist (trim (newPlaylistName st))
                 (if trim (newPlaylistDescription st) = [] then None
                  else Some (trim (newPlaylistDescription st))) (isPublic st)"
  obtain i v' where p: "post (''/users/'' @ uid @ ''/playlists'') ?body w = (Inr i, v')"
    using assms(1) by blast
  obtain chunks where c: "chunkArray ?uris 100 = Some chunks"
    using chunkArray_spec[of 100 ?uris] by auto
  obtain r iss v'' where
    s: "submitBatches post i chunks [(''/users/'' @ uid @ ''/playlists'', ?body)] v' = (r, iss, v'')"
    by (metis prod_cases3)
  have "fst (submitBatches post i chunks [(''/users/'' @ uid @ ''/playlists'', ?body)] v') = None"
    by (rule submitBatches_accepted[OF assms(1)])
  then have "r = None" using s by simp
  then show ?thesis
    using assms(2-5) p c s by (simp add: handleCreatePlaylist_def Let_def)
qed

text \<open>
  Claim C8. When the handler gets past its guards, the URIs of the sorted rows are cut
  into consecutive batches of exactly 100 with a last, non-empty batch of at most 100;
  the requests issued are the playlist creation followed by the batches in that order,
  up to the first one that fails (all of them when the outcome is \<open>Created\<close>); and each
  request starts from the state the previous one left, that is, the requests are issued
  one at a time. With 250 URIs and no failure the batch requests are exactly three, of
  sizes 100, 100 and 50.
\<close>

theorem handleCreatePlaylist_batches:
  assumes sel: "selectedPlaylist st = Some sel" and usr: "user st = Some uid"
    and nm: "trim (newPlaylistName st) \<noteq> []"
    and uris: "uris = filter (\<lambda>u. u \<noteq> []) (map uri rows)" and ne: "uris \<noteq> []"
    and run: "handleCreatePlaylist post st rows w = (res, issued, w')"
  shows "\<exists>chunks. chunkArray uris 100 = Some chunks \<and> concat chunks = uris \<and>
      (\<forall>c\<in>set chunks. c \<noteq> [] \<and> length c \<le> 100) \<and>
      (\<forall>k. Suc k < length chunks \<longrightarrow> length (chunks ! k) = 100) \<and>
      length chunks = (length uris + 99) div 100 \<and>
      (\<exists>k created_id body. k \<le> length chunks \<and>
          issued = (''/users/'' @ uid @ ''/playlists'', body)
                     # map (batchRequest created_id) (take k chunks) \<and>
          (res = Created \<longrightarrow> k = length chunks)) \<and>
      w' = postInTurn post issued w \<and>
      (length uris = 250 \<and> res = Created \<longrightarrow> map batchSize (tl issued) = [100, 100, 50])"
proof -
  let ?body = "NewPlaylist (trim (newPlaylistName st))
                 (if trim (newPlaylistDescription st) = [] then None
                  else Some (trim (newPlaylistDescription st))) (isPublic st)"
  let ?req = "(''/users/'' @ uid @ ''/playlists'', ?body)"
  obtain chunks where c: "chunkArray uris 100 = Some chunks" "concat chunks = uris"
      "\<forall>c\<in>set chunks. c \<noteq> [] \<and> length c \<le> 100"
      "\<forall>k. Suc k < length chunks \<longrightarrow> length (chunks ! k) = 100"
      "length chunks = (length uris + 100 - 1) div 100"
    using chunkArray_spec[of 100 uris] by auto
  obtain r v where p: "post (''/users/'' @ uid @ ''/playlists'') ?body w = (r, v)"
    by (cases "post (''/users/'' @ uid @ ''/playlists'') ?body w")
  have main: "\<exists>k created_id. k \<le> length chunks \<and>
          issued = ?req # map (batchRequest created_id) (take k chunks) \<and>
          (res = Created \<longrightarrow> k = length chunks) \<and> w' = postInTurn post issued w"
  proof (cases r)
    case (Inl e)
    then have "res = Failed e" "issued = [?req]" "w' = v"
      using run sel usr nm uris ne p by (simp_all add: handleCreatePlaylist_def Let_def)
    moreover have "v = postInTurn post [?req] w" using p by (simp add: postInTurn_def)
    ultimately show ?thesis by (intro exI[of _ 0]) simp
  next
    case (Inr i)
    obtain r2 iss v2 where s: "submitBatches post i chunks [?req] v = (r2, iss, v2)"
      by (metis prod_cases3)
    from submitBatches_spec[OF s] obtain k where k: "k \<le> length chunks"
      "iss = [?req] @ map (batchRequest i) (take k chunks)"
      "r2 = None \<longrightarrow> k = length chunks"
      "v2 = postInTurn post (map (batchRequest i) (take k chunks)) v"
      by blast
    have out: "issued = iss" "w' = v2" "res = (case r2 of None \<Rightarrow> Created | Some e \<Rightarrow> Failed e)"
      using run sel usr nm uris ne p Inr c(1) s
      by (auto simp: handleCreatePlaylist_def Let_def split: option.splits)
    have "w' = postInTurn post issued w"
      using out(1,2) k(2,4) p by (simp add: postInTurn_def)
    moreover have "res = Created \<longrightarrow> k = length chunks"
      using out(3) k(3) by (cases r2) simp_all
    ultimately show ?thesis using k(1,2) out(1) by (intro exI[of _ k] exI[of _ i]) simp
  qed
  have sizes: "map batchSize (tl issued) = [100, 100, 50]" if "length uris = 250" "res = Created"
  proof -
    have "chunkArray uris 100 = Some [take 100 uris, take 100 (drop 100 uris), drop 200 uris]"
      by (rule chunkArray_250[OF that(1)])
    then have ch: "chunks = [take 100 uris, take 100 (drop 100 uris), drop 200 uris]"
      using c(1) by simp
    from main that(2) obtain i where "issued = ?req # map (batchRequest i) chunks"
      by auto
    then show ?thesis using ch that(1) by (simp add: batchSize_def batchRequest_def)
  qed
  show ?thesis
    using c main sizes by (intro exI[of _ chunks]) auto
qed

theorem handleCreatePlaylist_batches_witness:
  "selectedPlaylist demoForm = Some ''source'' \<and> user demoForm = Some ''alice'' \<and>
   trim (newPlaylistName demoForm) = ''Sorted'' \<and>
   length (filter (\<lambda>u. u \<noteq> []) (map uri (manyRows 250))) = 250 \<and>
   fst (handleCreatePlaylist acceptingPost demoForm (manyRows 250) 0) = Created \<and>
   map batchSize (tl (fst (snd (handleCreatePlaylist acceptingPost demoForm (manyRows 250) 0))))
     = [100, 100, 50]"
proof -
  let ?uris = "filter (\<lambda>u. u \<noteq> []) (map uri (manyRows 250))"
  let ?run = "handleCreatePlaylist acceptingPost demoForm (manyRows 250) 0"
  have h1: "selectedPlaylist demoForm = Some ''source''" and h2: "user demoForm = Some ''alice''"
    by (simp_all add: demoForm_def)
  have t: "trim (newPlaylistName demoForm) = ''Sorted''"
    by (simp add: demoForm_def trim_def isBlank_def)
  then have h3: "trim (newPlaylistName demoForm) \<noteq> []" by simp
  have len: "length ?uris = 250"
    by (simp add: manyRows_def scenarioRow_def comp_def)
  have h5: "?uris \<noteq> []"
  proof
    assume "?uris = []"
    then have "length ?uris = 0" by (simp only: list.size)
    with len show False by simp
  qed
  have h6: "?run = (fst ?run, fst (snd ?run), snd (snd ?run))" by simp
  have acc: "\<exists>i v'. acceptingPost path body v = (Inr i, v')" for path body v
    by (simp add: acceptingPost_def)
  have created: "fst ?run = Created"
    by (rule handleCreatePlaylist_accepted[OF acc h1 h2 h3 h5])
  from handleCreatePlaylist_batches[OF h1 h2 h3 refl h5 h6] len created
  have "map batchSize (tl (fst (snd ?run))) = [100, 100, 50]" by blast
  then show ?thesis using h1 h2 t len created by simp
qed

subsection \<open>The paginated track fetch (C7)\<close>

lemma rowsOf_Nil [simp]: "rowsOf pid i [] = []"
  by (simp add: rowsOf_def)

lemma rowsOf_append:
  "rowsOf pid i (xs @ ys) = rowsOf pid i xs @ rowsOf pid (i + length (filter playable xs)) ys"
  by (simp add: rowsOf_def enumerate_append_eq)

lemma rowsOf_Cons:
  "rowsOf pid i (x # xs) =
     (if playable x
      then makeRow pid i x (the (track x)) (the (track_uri (the (track x)))) # rowsOf pid (Suc i) xs
      else rowsOf pid i xs)"
  by (simp add: rowsOf_def)

lemma length_rowsOf [simp]: "length (rowsOf pid i its) = length (filter playable its)"
  by (simp add: rowsOf_def)

lemma makeRow_fields [simp]:
  "originalIndex (makeRow pid k item t u) = k"
  "uri (makeRow pid k item t u) = u"
  "addedAt (makeRow pid k item t u) = added_at item"
  "name (makeRow pid k item t u) = track_name t"
  by (simp_all add: makeRow_def)

lemma originalIndex_rowsOf:
  "map originalIndex (rowsOf pid i its) = [i..<i + length (filter playable its)]"
proof -
  have "map originalIndex (rowsOf pid i its) = map fst (enumerate i (filter playable its))"
    by (simp add: rowsOf_def case_prod_unfold comp_def)
  then show ?thesis by (simp add: map_fst_enumerate)
qed

lemma processItems_rowsOf:
  "processItems pid its collected index =
     (collected @ rowsOf pid index its, index + length (filter playable its))"
proof (induction its arbitrary: collected index)
  case Nil
  then show ?case by simp
next
  case (Cons item rest)
  show ?case
  proof (cases "playable item")
    case True
    then obtain t u where "track item = Some t" "track_uri t = Some u" "u \<noteq> []"
      by (auto simp: playable_def split: option.splits)
    then show ?thesis using True Cons.IH by (simp add: rowsOf_Cons)
  next
    case False
    then show ?thesis using Cons.IH
      by (auto simp: rowsOf_Cons playable_def split: option.splits)
  qed
qed

lemma followsOn_next:
  assumes "followsOn rel p"
  obtains n u where "next_url p = Some n" "n \<noteq> []" "rel n = Some u" "u \<noteq> []"
    "nextPath rel p = Some u"
  using assms unfolding followsOn_def nextPath_def
  by (auto split: option.splits if_splits)

lemma trackLoop_pages:
  assumes "\<forall>p\<in>set pre. followsOn rel p" "nextAbsent lastp"
  shows "trackLoop rel pid (map Inr (pre @ [lastp]) @ rest) url collected index reqs =
     (Some (Inr (collected @ rowsOf pid index (concat (map items (pre @ [lastp]))))),
      reqs @ url # map (\<lambda>p. the (nextPath rel p)) pre)"
  using assms(1)
proof (induction pre arbitrary: url collected index reqs)
  case Nil
  then show ?case using assms(2)
    by (auto simp: nextAbsent_def processItems_rowsOf)
next
  case (Cons p pre)
  then have "followsOn rel p" and rest: "\<forall>q\<in>set pre. followsOn rel q" by simp_all
  then obtain n u where n: "next_url p = Some n" "n \<noteq> []" "rel n = Some u" "u \<noteq> []"
    "nextPath rel p = Some u"
    by (auto elim: followsOn_next)
  show ?case
    using n Cons.IH[OF rest] by (simp add: processItems_rowsOf rowsOf_append)
qed

lemma trackLoop_pending:
  assumes "\<forall>p\<in>set pre. followsOn rel p"
  shows "trackLoop rel pid (map Inr pre) url collected index reqs =
     (None, reqs @ url # map (\<lambda>p. the (nextPath rel p)) pre)"
  using assms
proof (induction pre arbitrary: url collected index reqs)
  case Nil
  then show ?case by simp
next
  case (Cons p pre)
  then have "followsOn rel p" and rest: "\<forall>q\<in>set pre. followsOn rel q" by simp_all
  then obtain n u where n: "next_url p = Some n" "n \<noteq> []" "rel n = Some u" "u \<noteq> []"
    "nextPath rel p = Some u"
    by (auto elim: followsOn_next)
  show ?case
    using n Cons.IH[OF rest] by (simp add: processItems_rowsOf)
qed

lemma rowsOf_uri:
  "map uri (rowsOf pid i its) = map (\<lambda>item. the (track_uri (the (track item)))) (filter playable its)"
  by (induction its arbitrary: i) (simp_all add: rowsOf_Cons)

text \<open>
  Claim C7. Let the fetch receive the pages \<open>pre\<close> and then \<open>lastp\<close>, where every page of
  \<open>pre\<close> names a next page. If \<open>lastp\<close> has no next link (\<^verbatim>\<open>null\<close> or empty), the fetch
  returns after exactly these requests, whatever the provider would have answered
  afterwards, and its rows are those of the pages' items taken in the order received:
  the items without a track or without a URI are left out, the \<open>k\<close>-th row kept has
  \<open>originalIndex = k\<close>, so the indices are 0, 1, 2, ... with no gap and no repetition, and
  the rows of several pages are the rows of the first followed by the rows of the
  others, numbered on from where the first stopped. If \<open>lastp\<close> names a next page, the
  fetch has not returned after it: it asks for that page.
\<close>

theorem fetchPlaylistTracks_pages:
  assumes "\<forall>p\<in>set pre. followsOn rel p"
  shows "(nextAbsent lastp \<longrightarrow>
            (\<exists>rows. fetchPlaylistTracks rel (map Inr (pre @ [lastp]) @ rest) pid =
                (Some (Inr rows),
                 (''/playlists/'' @ pid @ ''/tracks?limit=100'') # map (\<lambda>p. the (nextPath rel p)) pre) \<and>
              rows = rowsOf pid 0 (concat (map items (pre @ [lastp]))) \<and>
              map originalIndex rows = [0..<length rows] \<and>
              length rows = length (filter playable (concat (map items (pre @ [lastp])))) \<and>
              map uri rows = map (\<lambda>item. the (track_uri (the (track item))))
                               (filter playable (concat (map items (pre @ [lastp])))) \<and>
              rows = rowsOf pid 0 (concat (map items pre))
                       @ rowsOf pid (length (rowsOf pid 0 (concat (map items pre)))) (items lastp))) \<and>
         (followsOn rel lastp \<longrightarrow>
            fetchPlaylistTracks rel (map Inr (pre @ [lastp])) pid =
              (None, (''/playlists/'' @ pid @ ''/tracks?limit=100'')
                       # map (\<lambda>p. the (nextPath rel p)) (pre @ [lastp])))"
proof (intro conjI impI)
  assume a: "nextAbsent lastp"
  let ?its = "concat (map items (pre @ [lastp]))"
  have "fetchPlaylistTracks rel (map Inr (pre @ [lastp]) @ rest) pid =
          (Some (Inr (rowsOf pid 0 ?its)),
           (''/playlists/'' @ pid @ ''/tracks?limit=100'') # map (\<lambda>p. the (nextPath rel p)) pre)"
    unfolding fetchPlaylistTracks_def
    using trackLoop_pages[OF assms a, of pid rest _ "[]" 0 "[]"] by simp
  moreover have "map originalIndex (rowsOf pid 0 ?its) = [0..<length (rowsOf pid 0 ?its)]"
    using originalIndex_rowsOf[of pid 0 ?its] by simp
  moreover have "map uri (rowsOf pid 0 ?its)
        = map (\<lambda>item. the (track_uri (the (track item)))) (filter playable ?its)"
    by (rule rowsOf_uri)
  moreover have "rowsOf pid 0 ?its = rowsOf pid 0 (concat (map items pre))
                       @ rowsOf pid (length (rowsOf pid 0 (concat (map items pre)))) (items lastp)"
    by (simp add: rowsOf_append)
  ultimately show "\<exists>rows. fetchPlaylistTracks rel (map Inr (pre @ [lastp]) @ rest) pid =
                (Some (Inr rows),
                 (''/playlists/'' @ pid @ ''/tracks?limit=100'') # map (\<lambda>p. the (nextPath rel p)) pre) \<and>
              rows = rowsOf pid 0 (concat (map items (pre @ [lastp]))) \<and>
              map originalIndex rows = [0..<length rows] \<and>
              length rows = length (filter playable (concat (map items (pre @ [lastp])))) \<and>
              map uri rows = map (\<lambda>item. the (track_uri (the (track item))))
                               (filter playable (concat (map items (pre @ [lastp])))) \<and>
              rows = rowsOf pid 0 (concat (map items pre))
                       @ rowsOf pid (length (rowsOf pid 0 (concat (map items pre)))) (items lastp)"
    by (intro exI[of _ "rowsOf pid 0 ?its"] conjI) simp_all
next
  assume f: "followsOn rel lastp"
  have "\<forall>p\<in>set (pre @ [lastp]). followsOn rel p" using assms f by simp
  from trackLoop_pending[OF this, of pid _ "[]" 0 "[]"]
  show "fetchPlaylistTracks rel (map Inr (pre @ [lastp])) pid =
              (None, (''/playlists/'' @ pid @ ''/tracks?limit=100'')
                       # map (\<lambda>p. the (nextPath rel p)) (pre @ [lastp]))"
    unfolding fetchPlaylistTracks_def by simp
qed

theorem fetchPlaylistTracks_pages_witness:
  "followsOn pathAndSearch demoPage1 \<and> nextAbsent demoPage2 \<and>
   (\<exists>rows. fetchPlaylistTracks pathAndSearch [Inr demoPage1, Inr demoPage2, Inl NetworkFailure] ''p''
        = (Some (Inr rows),
           [''/playlists/p/tracks?limit=100'', ''/v1/playlists/p/tracks?offset=100'']) \<and>
      map (\<lambda>r. (uri r, originalIndex r)) rows
        = [(''spotify:track:a'', 0), (''spotify:track:b'', 1), (''spotify:track:c'', 2)])"
proof -
  have h: "\<forall>p\<in>set [demoPage1]. followsOn pathAndSearch p"
    by (simp add: followsOn_def nextPath_def demoPage1_def pathAndSearch_def)
  have a: "nextAbsent demoPage2" by (simp add: nextAbsent_def demoPage2_def)
  have np: "the (nextPath pathAndSearch demoPage1) = ''/v1/playlists/p/tracks?offset=100''"
    by (simp add: nextPath_def demoPage1_def pathAndSearch_def)
  have rows: "map (\<lambda>r. (uri r, originalIndex r))
        (rowsOf ''p'' 0 (concat (map items ([demoPage1] @ [demoPage2]))))
        = [(''spotify:track:a'', 0), (''spotify:track:b'', 1), (''spotify:track:c'', 2)]"
    by (simp add: rowsOf_Cons playable_def demoPage1_def demoPage2_def demoItem_def demoTrack_def)
  from fetchPlaylistTracks_pages[OF h, of demoPage2 "[Inl NetworkFailure]" "''p''"] a
  obtain rs where
    "fetchPlaylistTracks pathAndSearch (map Inr ([demoPage1] @ [demoPage2]) @ [Inl NetworkFailure]) ''p''
       = (Some (Inr rs), (''/playlists/'' @ ''p'' @ ''/tracks?limit=100'')
            # map (\<lambda>p. the (nextPath pathAndSearch p)) [demoPage1])"
    "rs = rowsOf ''p'' 0 (concat (map items ([demoPage1] @ [demoPage2])))"
    by blast
  then show ?thesis using h a np rows by simp
qed

subsection \<open>Storage and the token endpoint\<close>

lemma buildTokenSet_nonempty:
  "buildTokenSet t data prev = Inr ts \<Longrightarrow>
     refreshToken ts \<noteq> [] \<and> accessToken ts = access_token data \<and>
     (refresh_token data = None \<longrightarrow> prev = Some (refreshToken ts)) \<and>
     (\<forall>r. refresh_token data = Some r \<longrightarrow> refreshToken ts = r)"
  by (auto simp: buildTokenSet_def split: option.splits if_splits)

lemma buildTokenSet_carry:
  "refresh_token data = None \<Longrightarrow> prev \<noteq> [] \<Longrightarrow>
     \<exists>ts. buildTokenSet t data (Some prev) = Inr ts \<and> refreshToken ts = prev"
  by (simp add: buildTokenSet_def)

lemma buildTokenSet_missing:
  "refresh_token data = None \<Longrightarrow> prev = None \<or> prev = Some [] \<Longrightarrow>
     buildTokenSet t data prev = Inl MissingRefreshToken"
  by (auto simp: buildTokenSet_def)

lemma postToken_fields [simp]:
  "client_id (snd (postToken g c w)) = client_id w"
  "stored_tokens (snd (postToken g c w)) = stored_tokens w"
  "stored_state (snd (postToken g c w)) = stored_state w"
  "stored_verifier (snd (postToken g c w)) = stored_verifier w"
  "token_endpoint (snd (postToken g c w)) = token_endpoint w"
  "resource_api (snd (postToken g c w)) = resource_api w"
  "api_fetches (snd (postToken g c w)) = api_fetches w"
  "token_posts (snd (postToken g c w)) = Suc (token_posts w)"
  "events (snd (postToken g c w)) = events w @ [TokenPost g c]"
  "fst (postToken g c w) = snd (token_endpoint w (token_posts w))"
  by (simp_all add: postToken_def split: prod.splits)

lemma refreshAccessToken_stored:
  assumes "refreshAccessToken previous w = (res, w')"
  shows "(\<exists>ts. res = Inr ts \<and> stored_tokens w' = Some ts \<and> refreshToken ts \<noteq> []) \<or>
         (\<exists>e. res = Inl e \<and> (stored_tokens w' = stored_tokens w \<or> stored_tokens w' = None))"
proof -
  obtain r w1 where p: "postToken ''refresh_token'' (refreshToken previous) w = (r, w1)"
    by (cases "postToken ''refresh_token'' (refreshToken previous) w")
  then have s: "stored_tokens w1 = stored_tokens w"
    using postToken_fields(2)[of "''refresh_token''" "refreshToken previous" w] by simp
  show ?thesis
  proof (cases "assertEnv ''VITE_SPOTIFY_CLIENT_ID'' (client_id w)")
    case (Inl e)
    then have "refreshAccessToken previous w = (Inl e, w)"
      by (simp add: refreshAccessToken_def)
    then have "res = Inl e" "w' = w" using assms by simp_all
    then show ?thesis by simp
  next
    case (Inr cid)
    show ?thesis
    proof (cases r)
      case (TokenGranted data)
      show ?thesis
      proof (cases "buildTokenSet (now w1) data (Some (refreshToken previous))")
        case (Inl e)
        then have "refreshAccessToken previous w = (Inl e, w1)"
          using p Inr TokenGranted by (simp add: refreshAccessToken_def)
        then have "res = Inl e" "w' = w1" using assms by simp_all
        then show ?thesis using s by simp
      next
        case b: (Inr ts)
        then have "refreshAccessToken previous w = (Inr ts, storeTokens ts w1)"
          using p Inr TokenGranted by (simp add: refreshAccessToken_def)
        then have "res = Inr ts" "w' = storeTokens ts w1" using assms by simp_all
        then show ?thesis using buildTokenSet_nonempty[OF b] by (simp add: storeTokens_def)
      qed
    next
      case TokenRefused
      then have "refreshAccessToken previous w = (Inl SessionExpired, clearStoredAuth w1)"
        using p Inr by (simp add: refreshAccessToken_def)
      then have "res = Inl SessionExpired" "w' = clearStoredAuth w1" using assms by simp_all
      then show ?thesis by (simp add: clearStoredAuth_def)
    next
      case TokenUnreachable
      then have "refreshAccessToken previous w = (Inl NetworkFailure, w1)"
        using p Inr by (simp add: refreshAccessToken_def)
      then have "res = Inl NetworkFailure" "w' = w1" using assms by simp_all
      then show ?thesis using s by simp
    qed
  qed
qed

lemma completeAuthorization_cases:
  obtains (early) e where "completeAuthorization code st w = (Inl e, w)"
  | (late) e where
      "completeAuthorization code st w = (Inl e, snd (postToken ''authorization_code'' code w))"
  | (stored) ts where
      "completeAuthorization code st w =
         (Inr ts, (storeTokens ts (snd (postToken ''authorization_code'' code w)))
                    \<lparr> stored_state := None, stored_verifier := None \<rparr>)"
      "refreshToken ts \<noteq> []"
proof -
  obtain r w1 where p: "postToken ''authorization_code'' code w = (r, w1)"
    by (cases "postToken ''authorization_code'' code w")
  show ?thesis
  proof (cases "assertEnv ''VITE_SPOTIFY_CLIENT_ID'' (client_id w)")
    case (Inl e)
    then show ?thesis using early by (simp add: completeAuthorization_def)
  next
    case c: (Inr cid)
    show ?thesis
    proof (cases "assertEnv ''VITE_SPOTIFY_REDIRECT_URI'' (redirect_uri w)")
      case (Inl e)
      then show ?thesis using early c by (simp add: completeAuthorization_def)
    next
      case u: (Inr ru)
      show ?thesis
      proof (cases "stored_state w = None \<or> stored_state w = Some [] \<or> Some st \<noteq> stored_state w")
        case True
        then have "completeAuthorization code st w = (Inl StateMismatch, w)"
          using c u unfolding completeAuthorization_def by (simp only: sum.case if_True)
        then show ?thesis by (rule early)
      next
        case sm: False
        show ?thesis
        proof (cases "stored_verifier w = None \<or> stored_verifier w = Some []")
          case True
          then have "completeAuthorization code st w = (Inl MissingVerifier, w)"
            using c u sm unfolding completeAuthorization_def
            by (simp only: sum.case if_True if_False)
          then show ?thesis by (rule early)
        next
          case v: False
          have unf: "completeAuthorization code st w =
            (case r of
               TokenUnreachable \<Rightarrow> (Inl NetworkFailure, w1)
             | TokenRefused \<Rightarrow> (Inl TokenExchangeFailed, w1)
             | TokenGranted data \<Rightarrow>
                 (case buildTokenSet (now w1) data None of
                    Inl e \<Rightarrow> (Inl e, w1)
                  | Inr tokenSet \<Rightarrow>
                      (Inr tokenSet,
                       (storeTokens tokenSet w1)\<lparr> stored_state := None, stored_verifier := None \<rparr>)))"
            using c u sm v p unfolding completeAuthorization_def
            by (simp only: sum.case if_False prod.case)
          show ?thesis
          proof (cases r)
            case (TokenGranted data)
            show ?thesis
            proof (cases "buildTokenSet (now w1) data None")
              case (Inl e)
              then show ?thesis using unf TokenGranted late[of e] p by simp
            next
              case b: (Inr ts)
              then show ?thesis
                using unf TokenGranted stored[of ts] p buildTokenSet_nonempty[OF b] by simp
            qed
          next
            case TokenRefused
            then show ?thesis using unf late[of TokenExchangeFailed] p by simp
          next
            case TokenUnreachable
            then show ?thesis using unf late[of NetworkFailure] p by simp
          qed
        qed
      qed
    qed
  qed
qed

lemma completeAuthorization_stored:
  assumes "completeAuthorization code st w = (res, w')"
  shows "(\<exists>ts. res = Inr ts \<and> stored_tokens w' = Some ts \<and> refreshToken ts \<noteq> [] \<and>
               stored_state w' = None \<and> stored_verifier w' = None) \<or>
         (\<exists>e. res = Inl e \<and> stored_tokens w' = stored_tokens w \<and>
               stored_state w' = stored_state w \<and> stored_verifier w' = stored_verifier w)"
proof (cases code st w rule: completeAuthorization_cases)
  case (early e)
  then have "res = Inl e" "w' = w" using assms by simp_all
  then show ?thesis by simp
next
  case (late e)
  then have "res = Inl e" "w' = snd (postToken ''authorization_code'' code w)"
    using assms by simp_all
  then show ?thesis by simp
next
  case (stored ts)
  then have "res = Inr ts"
    "w' = (storeTokens ts (snd (postToken ''authorization_code'' code w)))
                    \<lparr> stored_state := None, stored_verifier := None \<rparr>"
    using assms by simp_all
  then show ?thesis using stored(2) by (simp add: storeTokens_def)
qed

subsection \<open>Token records in storage (C4) and the pending login (C6)\<close>

lemma refreshAccessToken_carry:
  assumes env: "client_id w = Some cid" "cid \<noteq> []"
    and rep: "token_endpoint w (token_posts w) = (d, TokenGranted data)"
    and om: "refresh_token data = None" and prev: "refreshToken previous \<noteq> []"
  shows "\<exists>ts w'. refreshAccessToken previous w = (Inr ts, w') \<and>
           refreshToken ts = refreshToken previous \<and> stored_tokens w' = Some ts"
proof -
  obtain w1 where p: "postToken ''refresh_token'' (refreshToken previous) w = (TokenGranted data, w1)"
    using rep by (simp add: postToken_def)
  obtain ts where b: "buildTokenSet (now w1) data (Some (refreshToken previous)) = Inr ts"
      "refreshToken ts = refreshToken previous"
    using buildTokenSet_carry[OF om prev] by blast
  have "refreshAccessToken previous w = (Inr ts, storeTokens ts w1)"
    using env p b(1) by (simp add: refreshAccessToken_def assertEnv_def)
  then show ?thesis using b(2) by (simp add: storeTokens_def)
qed

lemma completeAuthorization_omitted:
  assumes rep: "token_endpoint w (token_posts w) = (d, TokenGranted data)"
    and om: "refresh_token data = None"
  shows "\<exists>e. fst (completeAuthorization code st w) = Inl e"
    and "stored_tokens (snd (completeAuthorization code st w)) = stored_tokens w"
proof -
  have b: "buildTokenSet t data None = Inl MissingRefreshToken" for t
    by (rule buildTokenSet_missing[OF om]) simp
  have p: "fst (postToken ''authorization_code'' code w) = TokenGranted data"
    using rep by simp
  have "\<exists>e w'. completeAuthorization code st w = (Inl e, w') \<and> stored_tokens w' = stored_tokens w"
  proof (cases code st w rule: completeAuthorization_cases)
    case (early e)
    then show ?thesis by simp
  next
    case (late e)
    then show ?thesis by simp
  next
    case (stored ts)
    obtain w1 where w1: "postToken ''authorization_code'' code w = (TokenGranted data, w1)"
      using p by (cases "postToken ''authorization_code'' code w") simp
    have False
      using stored(1) w1 b
      by (auto simp: completeAuthorization_def split: sum.splits if_splits)
    then show ?thesis ..
  qed
  then show "\<exists>e. fst (completeAuthorization code st w) = Inl e"
    and "stored_tokens (snd (completeAuthorization code st w)) = stored_tokens w"
    by auto
qed

text \<open>
  Claim C4. A token record is built only with a non-empty refresh token: the one of the
  response or, when the response has none, the previous one, and with neither the
  build fails. \<^verbatim>\<open>refreshAccessToken\<close> and \<^verbatim>\<open>completeAuthorization\<close>, the two callers of
  \<^verbatim>\<open>storeTokens\<close>, leave in storage what was there, or nothing, or the record they return,
  whose refresh token is not empty. A refresh whose response omits the refresh token
  stores a record that carries the previous one forward; a login whose response omits
  it fails and stores nothing.
\<close>

theorem persisted_refresh_token_never_empty:
  "(\<forall>ts. buildTokenSet t data prev = Inr ts \<longrightarrow>
      refreshToken ts \<noteq> [] \<and> (refresh_token data = None \<longrightarrow> prev = Some (refreshToken ts))) \<and>
   (refresh_token data = None \<and> (prev = None \<or> prev = Some []) \<longrightarrow>
      buildTokenSet t data prev = Inl MissingRefreshToken) \<and>
   (\<forall>res w'. refreshAccessToken previous w = (res, w') \<longrightarrow>
      stored_tokens w' = stored_tokens w \<or> stored_tokens w' = None \<or>
      (\<exists>ts. stored_tokens w' = Some ts \<and> res = Inr ts \<and> refreshToken ts \<noteq> [])) \<and>
   (\<forall>cid d. client_id w = Some cid \<and> cid \<noteq> [] \<and>
      token_endpoint w (token_posts w) = (d, TokenGranted data) \<and>
      refresh_token data = None \<and> refreshToken previous \<noteq> [] \<longrightarrow>
      (\<exists>ts w'. refreshAccessToken previous w = (Inr ts, w') \<and>
         refreshToken ts = refreshToken previous \<and> stored_tokens w' = Some ts)) \<and>
   (\<forall>res w'. completeAuthorization code st w = (res, w') \<longrightarrow>
      stored_tokens w' = stored_tokens w \<or>
      (\<exists>ts. stored_tokens w' = Some ts \<and> res = Inr ts \<and> refreshToken ts \<noteq> [])) \<and>
   (\<forall>d. token_endpoint w (token_posts w) = (d, TokenGranted data) \<and> refresh_token data = None \<longrightarrow>
      (\<exists>e. fst (completeAuthorization code st w) = Inl e) \<and>
      stored_tokens (snd (completeAuthorization code st w)) = stored_tokens w)"
proof -
  have c1: "\<forall>ts. buildTokenSet t data prev = Inr ts \<longrightarrow>
      refreshToken ts \<noteq> [] \<and> (refresh_token data = None \<longrightarrow> prev = Some (refreshToken ts))"
    using buildTokenSet_nonempty by blast
  have c2: "refresh_token data = None \<and> (prev = None \<or> prev = Some []) \<longrightarrow>
      buildTokenSet t data prev = Inl MissingRefreshToken"
    using buildTokenSet_missing by blast
  have c3: "\<forall>res w'. refreshAccessToken previous w = (res, w') \<longrightarrow>
      stored_tokens w' = stored_tokens w \<or> stored_tokens w' = None \<or>
      (\<exists>ts. stored_tokens w' = Some ts \<and> res = Inr ts \<and> refreshToken ts \<noteq> [])"
    using refreshAccessToken_stored by blast
  have c4: "\<forall>cid d. client_id w = Some cid \<and> cid \<noteq> [] \<and>
      token_endpoint w (token_posts w) = (d, TokenGranted data) \<and>
      refresh_token data = None \<and> refreshToken previous \<noteq> [] \<longrightarrow>
      (\<exists>ts w'. refreshAccessToken previous w = (Inr ts, w') \<and>
         refreshToken ts = refreshToken previous \<and> stored_tokens w' = Some ts)"
    using refreshAccessToken_carry by blast
  have c5: "\<forall>res w'. completeAuthorization code st w = (res, w') \<longrightarrow>
      stored_tokens w' = stored_tokens w \<or>
      (\<exists>ts. stored_tokens w' = Some ts \<and> res = Inr ts \<and> refreshToken ts \<noteq> [])"
    using completeAuthorization_stored by blast
  have c6: "\<forall>d. token_endpoint w (token_posts w) = (d, TokenGranted data) \<and> refresh_token data = None \<longrightarrow>
      (\<exists>e. fst (completeAuthorization code st w) = Inl e) \<and>
      stored_tokens (snd (completeAuthorization code st w)) = stored_tokens w"
    using completeAuthorization_omitted by blast
  show ?thesis
    by (intro conjI) (rule c1 c2 c3 c4 c5 c6)+
qed

theorem persisted_refresh_token_never_empty_witness:
  "client_id (demoWorld (\<lambda>k. (5, TokenGranted (grantedReply None))) noApi) = Some ''client'' \<and>
   token_endpoint (demoWorld (\<lambda>k. (5, TokenGranted (grantedReply None))) noApi) 0
     = (5, TokenGranted (grantedReply None)) \<and>
   refresh_token (grantedReply None) = None \<and>
   refreshToken staleTokens = ''old-refresh'' \<and>
   (\<exists>ts w'. refreshAccessToken staleTokens (demoWorld (\<lambda>k. (5, TokenGranted (grantedReply None))) noApi)
        = (Inr ts, w') \<and>
      refreshToken ts = ''old-refresh'' \<and> stored_tokens w' = Some ts)"
proof -
  let ?w = "demoWorld (\<lambda>k. (5, TokenGranted (grantedReply None))) noApi"
  have h: "client_id ?w = Some ''client''" "''client'' \<noteq> []"
    "token_endpoint ?w (token_posts ?w) = (5, TokenGranted (grantedReply None))"
    "refresh_token (grantedReply None) = None" "refreshToken staleTokens \<noteq> []"
    by (simp_all add: demoWorld_def grantedReply_def staleTokens_def)
  have r: "refreshToken staleTokens = ''old-refresh''" by (simp add: staleTokens_def)
  from persisted_refresh_token_never_empty[of 0 "grantedReply None" None staleTokens ?w "''c''" "''s''"] h
  have "\<exists>ts w'. refreshAccessToken staleTokens ?w = (Inr ts, w') \<and>
         refreshToken ts = refreshToken staleTokens \<and> stored_tokens w' = Some ts"
    by blast
  then show ?thesis using h r by (simp add: demoWorld_def)
qed

text \<open>
  The claim C6 as stated fails: after a state mismatch, and after a refused token
  exchange, both pending values are still in session storage.
\<close>

theorem completeAuthorization_failure_keeps_pending:
  "fst (completeAuthorization ''code'' ''forged'' (demoWorld (\<lambda>k. (5, TokenRefused)) noApi))
     = Inl StateMismatch \<and>
   stored_state (snd (completeAuthorization ''code'' ''forged'' (demoWorld (\<lambda>k. (5, TokenRefused)) noApi)))
     = Some ''expected'' \<and>
   stored_verifier (snd (completeAuthorization ''code'' ''forged'' (demoWorld (\<lambda>k. (5, TokenRefused)) noApi)))
     = Some ''verifier'' \<and>
   fst (completeAuthorization ''code'' ''expected'' (demoWorld (\<lambda>k. (5, TokenRefused)) noApi))
     = Inl TokenExchangeFailed \<and>
   stored_state (snd (completeAuthorization ''code'' ''expected'' (demoWorld (\<lambda>k. (5, TokenRefused)) noApi)))
     = Some ''expected'' \<and>
   stored_verifier (snd (completeAuthorization ''code'' ''expected'' (demoWorld (\<lambda>k. (5, TokenRefused)) noApi)))
     = Some ''verifier''"
  by (simp add: completeAuthorization_def demoWorld_def assertEnv_def postToken_def)

text \<open>
  Claim C6, amended. The two pending values (state and code verifier) are cleared when
  \<^verbatim>\<open>completeAuthorization\<close> returns a token record; when it fails, for whatever reason, it
  leaves them as they were.
\<close>

theorem completeAuthorization_clears_on_success:
  assumes "completeAuthorization code st w = (res, w')"
  shows "(\<forall>ts. res = Inr ts \<longrightarrow> stored_state w' = None \<and> stored_verifier w' = None) \<and>
         (\<forall>e. res = Inl e \<longrightarrow>
            stored_state w' = stored_state w \<and> stored_verifier w' = stored_verifier w)"
  using completeAuthorization_stored[OF assms] by auto

theorem completeAuthorization_clears_on_success_witness:
  "(\<exists>ts. fst (completeAuthorization ''code'' ''expected''
              (demoWorld (\<lambda>k. (5, TokenGranted (grantedReply (Some ''new-refresh'')))) noApi)) = Inr ts) \<and>
   stored_state (snd (completeAuthorization ''code'' ''expected''
              (demoWorld (\<lambda>k. (5, TokenGranted (grantedReply (Some ''new-refresh'')))) noApi))) = None \<and>
   stored_verifier (snd (completeAuthorization ''code'' ''expected''
              (demoWorld (\<lambda>k. (5, TokenGranted (grantedReply (Some ''new-refresh'')))) noApi))) = None"
proof -
  let ?w = "demoWorld (\<lambda>k. (5, TokenGranted (grantedReply (Some ''new-refresh'')))) noApi"
  let ?run = "completeAuthorization ''code'' ''expected'' ?w"
  have ok: "\<exists>ts. fst ?run = Inr ts"
    by (simp add: completeAuthorization_def demoWorld_def assertEnv_def postToken_def
          buildTokenSet_def grantedReply_def)
  have "?run = (fst ?run, snd ?run)" by simp
  from completeAuthorization_clears_on_success[OF this] ok
  show ?thesis by auto
qed

subsection \<open>Frames of the pipeline's steps\<close>

lemma apiFetch_fields [simp]:
  "client_id (snd (apiFetch u h w)) = client_id w"
  "stored_tokens (snd (apiFetch u h w)) = stored_tokens w"
  "token_endpoint (snd (apiFetch u h w)) = token_endpoint w"
  "token_posts (snd (apiFetch u h w)) = token_posts w"
  "resource_api (snd (apiFetch u h w)) = resource_api w"
  "api_fetches (snd (apiFetch u h w)) = Suc (api_fetches w)"
  "events (snd (apiFetch u h w)) = events w @ [ApiFetch u h]"
  "fst (apiFetch u h w) = snd (resource_api w (api_fetches w))"
  by (simp_all add: apiFetch_def split: prod.splits)

lemma sleep_fields [simp]:
  "client_id (sleep ms w) = client_id w"
  "token_endpoint (sleep ms w) = token_endpoint w"
  "token_posts (sleep ms w) = token_posts w"
  "resource_api (sleep ms w) = resource_api w"
  "api_fetches (sleep ms w) = api_fetches w"
  "events (sleep ms w) = events w @ [Wait ms]"
  by (simp_all add: sleep_def)

lemma refreshAccessToken_frame:
  assumes "refreshAccessToken previous w = (res, w')"
  shows "client_id w' = client_id w" "token_endpoint w' = token_endpoint w"
    "resource_api w' = resource_api w" "api_fetches w' = api_fetches w"
    "events w' = events w \<or> events w' = events w @ [TokenPost ''refresh_token'' (refreshToken previous)]"
    "\<And>ts. res = Inr ts \<Longrightarrow>
        events w' = events w @ [TokenPost ''refresh_token'' (refreshToken previous)] \<and>
        token_posts w' = Suc (token_posts w) \<and>
        (\<exists>d data. token_endpoint w (token_posts w) = (d, TokenGranted data) \<and>
                  accessToken ts = access_token data)"
proof -
  let ?p = "postToken ''refresh_token'' (refreshToken previous) w"
  obtain r w1 where p: "?p = (r, w1)" by (cases ?p)
  have w1: "w1 = snd ?p" and r: "r = snd (token_endpoint w (token_posts w))"
    using p postToken_fields(10)[of "''refresh_token''" "refreshToken previous" w] by simp_all
  have cases: "(\<exists>e. res = Inl e \<and> w' = w) \<or> (\<exists>e. res = Inl e \<and> w' = w1) \<or>
        (res = Inl SessionExpired \<and> w' = clearStoredAuth w1) \<or>
        (\<exists>ts data. res = Inr ts \<and> w' = storeTokens ts w1 \<and> r = TokenGranted data \<and>
                    buildTokenSet (now w1) data (Some (refreshToken previous)) = Inr ts)"
  proof (cases "assertEnv ''VITE_SPOTIFY_CLIENT_ID'' (client_id w)")
    case (Inl e)
    then have "refreshAccessToken previous w = (Inl e, w)"
      by (simp add: refreshAccessToken_def)
    then show ?thesis using assms by simp
  next
    case (Inr cid)
    show ?thesis
    proof (cases r)
      case (TokenGranted data)
      show ?thesis
      proof (cases "buildTokenSet (now w1) data (Some (refreshToken previous))")
        case (Inl e)
        then have "refreshAccessToken previous w = (Inl e, w1)"
          using p Inr TokenGranted by (simp add: refreshAccessToken_def)
        then show ?thesis using assms by simp
      next
        case b: (Inr ts)
        then have "refreshAccessToken previous w = (Inr ts, storeTokens ts w1)"
          using p Inr TokenGranted by (simp add: refreshAccessToken_def)
        then show ?thesis using assms b TokenGranted by simp
      qed
    next
      case TokenRefused
      then have "refreshAccessToken previous w = (Inl SessionExpired, clearStoredAuth w1)"
        using p Inr by (simp add: refreshAccessToken_def)
      then show ?thesis using assms by simp
    next
      case TokenUnreachable
      then have "refreshAccessToken previous w = (Inl NetworkFailure, w1)"
        using p Inr by (simp add: refreshAccessToken_def)
      then show ?thesis using assms by simp
    qed
  qed
  show "client_id w' = client_id w" "token_endpoint w' = token_endpoint w"
    "resource_api w' = resource_api w" "api_fetches w' = api_fetches w"
    "events w' = events w \<or> events w' = events w @ [TokenPost ''refresh_token'' (refreshToken previous)]"
    using cases w1 by (auto simp: clearStoredAuth_def storeTokens_def)
  show "events w' = events w @ [TokenPost ''refresh_token'' (refreshToken previous)] \<and>
        token_posts w' = Suc (token_posts w) \<and>
        (\<exists>d data. token_endpoint w (token_posts w) = (d, TokenGranted data) \<and>
                  accessToken ts = access_token data)" if "res = Inr ts" for ts
  proof -
    from cases that obtain data where d: "w' = storeTokens ts w1" "r = TokenGranted data"
      "buildTokenSet (now w1) data (Some (refreshToken previous)) = Inr ts"
      by auto
    have "accessToken ts = access_token data" using buildTokenSet_nonempty[OF d(3)] by simp
    moreover obtain dd where "token_endpoint w (token_posts w) = (dd, TokenGranted data)"
      using r d(2) by (cases "token_endpoint w (token_posts w)") simp
    ultimately show ?thesis using d(1) w1 by (auto simp: storeTokens_def)
  qed
qed

subsection \<open>What the pipeline sends\<close>

lemma ensureFresh_fresh:
  "now w + 60000 < expiresAt (tokens c) \<Longrightarrow>
     ensureFreshAccessToken c w = (Inr (accessToken (tokens c)), c, w)"
  by (simp add: ensureFreshAccessToken_def)

lemma ensureFresh_stale:
  "\<not> now w + 60000 < expiresAt (tokens c) \<Longrightarrow>
     ensureFreshAccessToken c w =
       (case refreshAccessToken (tokens c) w of
          (Inl e, w1) \<Rightarrow> (Inl e, c, w1)
        | (Inr refreshed, w1) \<Rightarrow> (Inr (accessToken refreshed), c\<lparr> tokens := refreshed \<rparr>, w1))"
  by (simp add: ensureFreshAccessToken_def)

lemma ensureFresh_frame:
  assumes "ensureFreshAccessToken c w = (res, c', w')"
  shows "client_id w' = client_id w" "token_endpoint w' = token_endpoint w"
    "resource_api w' = resource_api w" "api_fetches w' = api_fetches w"
    "\<exists>rest. events w' = events w @ rest"
proof -
  have "w' = w \<or> (\<exists>r. refreshAccessToken (tokens c) w = (r, w'))"
    using assms
    by (cases "now w + 60000 < expiresAt (tokens c)")
       (auto simp: ensureFresh_fresh ensureFresh_stale split: prod.splits sum.splits)
  then show "client_id w' = client_id w" "token_endpoint w' = token_endpoint w"
    "resource_api w' = resource_api w" "api_fetches w' = api_fetches w"
    "\<exists>rest. events w' = events w @ rest"
    using refreshAccessToken_frame(1-5) by (fastforce+)
qed

lemma authorizedFetch_events_grow:
  "authorizedFetch fuel input init attempt c w = (res, c', w') \<Longrightarrow>
     \<exists>rest. events w' = events w @ rest"
proof (induction fuel arbitrary: attempt c w)
  case 0
  then show ?case by simp
next
  case (Suc fuel)
  obtain r1 c1 w1 where e: "ensureFreshAccessToken c w = (r1, c1, w1)"
    by (metis prod_cases3)
  from ensureFresh_frame(5)[OF e] obtain x1 where x1: "events w1 = events w @ x1" by blast
  show ?case
  proof (cases r1)
    case (Inl err)
    then show ?thesis using Suc.prems e x1 by auto
  next
    case (Inr token)
    let ?f = "apiFetch (requestUrl input) (requestHeaders init token) w1"
    obtain a w2 where f: "?f = (a, w2)" by (cases ?f)
    have x2: "events w2 = events w @ x1 @ [ApiFetch (requestUrl input) (requestHeaders init token)]"
      using f x1 apiFetch_fields(7)[of "requestUrl input" "requestHeaders init token" w1] by simp
    show ?thesis
    proof (cases a)
      case Unreachable
      then show ?thesis using Suc.prems e Inr f x2 by auto
    next
      case (Answered response)
      consider (unauth) "status response = 401 \<and> attempt = 0"
        | (limited) "\<not> (status response = 401 \<and> attempt = 0)" "status response = 429"
        | (other) "\<not> (status response = 401 \<and> attempt = 0)" "status response \<noteq> 429"
        by blast
      then show ?thesis
      proof cases
        case unauth
        obtain r3 w3 where rf: "refreshAccessToken (tokens c1) w2 = (r3, w3)"
          by (cases "refreshAccessToken (tokens c1) w2")
        from refreshAccessToken_frame(5)[OF rf] obtain x3 where x3: "events w3 = events w2 @ x3"
          by auto
        show ?thesis
        proof (cases r3)
          case (Inl err)
          then show ?thesis using Suc.prems e Inr f Answered unauth rf x2 x3 by auto
        next
          case r: (Inr refreshed)
          then have "authorizedFetch fuel input init (attempt + 1) (c1\<lparr> tokens := refreshed \<rparr>) w3
                       = (res, c', w')"
            using Suc.prems e Inr f Answered unauth rf by simp
          from Suc.IH[OF this] show ?thesis using x2 x3 by auto
        qed
      next
        case limited
        then have "authorizedFetch fuel input init (attempt + 1) c1 (sleep (retryAfterMs response) w2)
                     = (res, c', w')"
          using Suc.prems e Inr f Answered by auto
        from Suc.IH[OF this] show ?thesis using x2 by auto
      next
        case other
        then show ?thesis using Suc.prems e Inr f Answered x2 by auto
      qed
    qed
  qed
qed

lemma authorization_header:
  "map_of (requestHeaders init tok) ''authorization'' = Some (''Bearer '' @ tok)"
  by (simp add: requestHeaders_def setHeader_def Let_def)

lemma authorizedFetch_first_request:
  assumes run: "authorizedFetch (Suc fuel) input init attempt c w = (res, c', w')"
    and e: "ensureFreshAccessToken c w = (Inr token, c1, w1)"
  shows "\<exists>rest. events w' = events w1 @ ApiFetch (requestUrl input) (requestHeaders init token) # rest"
proof -
  let ?f = "apiFetch (requestUrl input) (requestHeaders init token) w1"
  obtain a w2 where f: "?f = (a, w2)" by (cases ?f)
  have x2: "events w2 = events w1 @ [ApiFetch (requestUrl input) (requestHeaders init token)]"
    using f apiFetch_fields(7)[of "requestUrl input" "requestHeaders init token" w1] by simp
  have "\<exists>rest. events w' = events w2 @ rest"
  proof (cases a)
    case Unreachable
    then show ?thesis using run e f by auto
  next
    case (Answered response)
    consider (unauth) "status response = 401 \<and> attempt = 0"
      | (limited) "\<not> (status response = 401 \<and> attempt = 0)" "status response = 429"
      | (other) "\<not> (status response = 401 \<and> attempt = 0)" "status response \<noteq> 429"
      by blast
    then show ?thesis
    proof cases
      case unauth
      obtain r3 w3 where rf: "refreshAccessToken (tokens c1) w2 = (r3, w3)"
        by (cases "refreshAccessToken (tokens c1) w2")
      from refreshAccessToken_frame(5)[OF rf] obtain x3 where x3: "events w3 = events w2 @ x3"
        by auto
      show ?thesis
      proof (cases r3)
        case (Inl err)
        then show ?thesis using run e f Answered unauth rf x3 by auto
      next
        case r: (Inr refreshed)
        then have "authorizedFetch fuel input init (attempt + 1) (c1\<lparr> tokens := refreshed \<rparr>) w3
                     = (res, c', w')"
          using run e f Answered unauth rf by simp
        from authorizedFetch_events_grow[OF this] show ?thesis using x3 by auto
      qed
    next
      case limited
      then have "authorizedFetch fuel input init (attempt + 1) c1 (sleep (retryAfterMs response) w2)
                   = (res, c', w')"
        using run e f Answered by auto
      from authorizedFetch_events_grow[OF this] show ?thesis by auto
    next
      case other
      then show ?thesis using run e f Answered by auto
    qed
  qed
  then show ?thesis using x2 by auto
qed

subsection \<open>Proactive refresh (C2)\<close>

text \<open>
  Claim C2. Every request of the pipeline is preceded by the check of
  \<^verbatim>\<open>ensureFreshAccessToken\<close> on the clock and the current record. If
  \<open>now + 60000 < expiresAt\<close>, the next thing sent is the request itself, with the current
  access token as bearer: no refresh. Otherwise the token endpoint is asked once; if it
  grants, the next thing sent is the request, with the access token of that very
  answer as bearer; if the refresh fails, the call fails with no request sent.
\<close>

theorem authorizedFetch_token_freshness:
  assumes run: "authorizedFetch (Suc fuel) input init attempt c w = (res, c', w')"
  shows "(now w + 60000 < expiresAt (tokens c) \<longrightarrow>
            (\<exists>rest. events w' = events w
                @ ApiFetch (requestUrl input) (requestHeaders init (accessToken (tokens c))) # rest)) \<and>
         (expiresAt (tokens c) \<le> now w + 60000 \<longrightarrow>
            (\<forall>refreshed w1. refreshAccessToken (tokens c) w = (Inr refreshed, w1) \<longrightarrow>
               (\<exists>rest d data. events w' = events w
                    @ TokenPost ''refresh_token'' (refreshToken (tokens c))
                    # ApiFetch (requestUrl input) (requestHeaders init (accessToken refreshed)) # rest \<and>
                  token_endpoint w (token_posts w) = (d, TokenGranted data) \<and>
                  accessToken refreshed = access_token data)) \<and>
            (\<forall>e w1. refreshAccessToken (tokens c) w = (Inl e, w1) \<longrightarrow>
               res = Some (Inl e) \<and> w' = w1 \<and> api_fetches w' = api_fetches w)) \<and>
         (\<forall>tok. map_of (requestHeaders init tok) ''authorization'' = Some (''Bearer '' @ tok))"
proof -
  have fresh: "\<exists>rest. events w' = events w
                @ ApiFetch (requestUrl input) (requestHeaders init (accessToken (tokens c))) # rest"
    if "now w + 60000 < expiresAt (tokens c)"
    using authorizedFetch_first_request[OF run ensureFresh_fresh[OF that]] .
  have granted: "\<exists>rest d data. events w' = events w
                    @ TokenPost ''refresh_token'' (refreshToken (tokens c))
                    # ApiFetch (requestUrl input) (requestHeaders init (accessToken refreshed)) # rest \<and>
                  token_endpoint w (token_posts w) = (d, TokenGranted data) \<and>
                  accessToken refreshed = access_token data"
    if st: "expiresAt (tokens c) \<le> now w + 60000"
      and rf: "refreshAccessToken (tokens c) w = (Inr refreshed, w1)" for refreshed w1
  proof -
    have e: "ensureFreshAccessToken c w = (Inr (accessToken refreshed), c\<lparr> tokens := refreshed \<rparr>, w1)"
      using st rf by (simp add: ensureFresh_stale)
    from authorizedFetch_first_request[OF run e] obtain rest where
      "events w' = events w1
         @ ApiFetch (requestUrl input) (requestHeaders init (accessToken refreshed)) # rest"
      by blast
    moreover from refreshAccessToken_frame(6)[OF rf refl] obtain d data where
      "events w1 = events w @ [TokenPost ''refresh_token'' (refreshToken (tokens c))]"
      "token_endpoint w (token_posts w) = (d, TokenGranted data)"
      "accessToken refreshed = access_token data"
      by blast
    ultimately show ?thesis by auto
  qed
  have failed: "res = Some (Inl e) \<and> w' = w1 \<and> api_fetches w' = api_fetches w"
    if st: "expiresAt (tokens c) \<le> now w + 60000"
      and rf: "refreshAccessToken (tokens c) w = (Inl e, w1)" for e w1
  proof -
    have e: "ensureFreshAccessToken c w = (Inl e, c, w1)"
      using st rf by (simp add: ensureFresh_stale)
    then have "authorizedFetch (Suc fuel) input init attempt c w = (Some (Inl e), c, w1)"
      by simp
    then have "res = Some (Inl e)" "w' = w1" using run by simp_all
    then show ?thesis using refreshAccessToken_frame(4)[OF rf] by simp
  qed
  show ?thesis
    using fresh granted failed authorization_header by blast
qed

theorem authorizedFetch_token_freshness_witness:
  "expiresAt (tokens staleClient)
     \<le> now (demoWorld (\<lambda>k. (5, TokenGranted (grantedReply None))) (\<lambda>k. replyWith 200 None)) + 60000 \<and>
   events (snd (snd (authorizedFetch 1 ''/me'' demoInit 0 staleClient
            (demoWorld (\<lambda>k. (5, TokenGranted (grantedReply None))) (\<lambda>k. replyWith 200 None)))))
     = [TokenPost ''refresh_token'' ''old-refresh'',
        ApiFetch ''https://api.spotify.com/v1/me'' [(''authorization'', ''Bearer fresh-access'')]] \<and>
   now (demoWorld (\<lambda>k. (5, TokenGranted (grantedReply None))) (\<lambda>k. replyWith 200 None)) + 60000
     < expiresAt (tokens freshClient) \<and>
   events (snd (snd (authorizedFetch 1 ''/me'' demoInit 0 freshClient
            (demoWorld (\<lambda>k. (5, TokenGranted (grantedReply None))) (\<lambda>k. replyWith 200 None)))))
     = [ApiFetch ''https://api.spotify.com/v1/me'' [(''authorization'', ''Bearer good-access'')]]"
proof -
  let ?w = "demoWorld (\<lambda>k. (5, TokenGranted (grantedReply None))) (\<lambda>k. replyWith 200 None)"
  let ?run = "authorizedFetch 1 ''/me'' demoInit 0 staleClient ?w"
  let ?run2 = "authorizedFetch 1 ''/me'' demoInit 0 freshClient ?w"
  have st: "expiresAt (tokens staleClient) \<le> now ?w + 60000"
    by (simp add: staleClient_def staleTokens_def demoWorld_def)
  have fr: "now ?w + 60000 < expiresAt (tokens freshClient)"
    by (simp add: freshClient_def staleTokens_def demoWorld_def)
  have r1: "authorizedFetch (Suc 0) ''/me'' demoInit 0 staleClient ?w
              = (fst ?run, fst (snd ?run), snd (snd ?run))" by simp
  have r2: "authorizedFetch (Suc 0) ''/me'' demoInit 0 freshClient ?w
              = (fst ?run2, fst (snd ?run2), snd (snd ?run2))" by simp
  obtain refreshed w1 where rf: "refreshAccessToken (tokens staleClient) ?w = (Inr refreshed, w1)"
    "accessToken refreshed = ''fresh-access''"
    by (simp add: refreshAccessToken_def assertEnv_def demoWorld_def postToken_def
          buildTokenSet_def grantedReply_def staleClient_def staleTokens_def)
  have len1: "length (events (snd (snd ?run))) = 2"
    by (simp add: ensureFreshAccessToken_def refreshAccessToken_def assertEnv_def demoWorld_def
          postToken_def buildTokenSet_def grantedReply_def staleClient_def staleTokens_def
          apiFetch_def replyWith_def storeTokens_def)
  have len2: "length (events (snd (snd ?run2))) = 1"
    by (simp add: ensureFreshAccessToken_def demoWorld_def freshClient_def staleTokens_def
          apiFetch_def replyWith_def)
  have hd: "requestUrl ''/me'' = ''https://api.spotify.com/v1/me''"
    "requestHeaders demoInit tok = [(''authorization'', ''Bearer '' @ tok)]" for tok
    by (simp_all add: requestUrl_def API_BASE_def requestHeaders_def setHeader_def hasHeader_def
          demoInit_def)
  note T1 = authorizedFetch_token_freshness[OF r1]
  note T2 = authorizedFetch_token_freshness[OF r2]
  from T1 st rf obtain rest where
    "events (snd (snd ?run)) = events ?w @ TokenPost ''refresh_token'' (refreshToken (tokens staleClient))
        # ApiFetch (requestUrl ''/me'') (requestHeaders demoInit (accessToken refreshed)) # rest"
    by blast
  then have e1: "events (snd (snd ?run)) = [TokenPost ''refresh_token'' ''old-refresh'',
        ApiFetch ''https://api.spotify.com/v1/me'' [(''authorization'', ''Bearer fresh-access'')]]"
    using len1 rf(2) hd by (simp add: demoWorld_def staleClient_def staleTokens_def)
  from T2 fr obtain rest2 where
    "events (snd (snd ?run2)) = events ?w
        @ ApiFetch (requestUrl ''/me'') (requestHeaders demoInit (accessToken (tokens freshClient))) # rest2"
    by blast
  then have e2: "events (snd (snd ?run2))
      = [ApiFetch ''https://api.spotify.com/v1/me'' [(''authorization'', ''Bearer good-access'')]]"
    using len2 hd by (simp add: demoWorld_def freshClient_def staleTokens_def)
  show ?thesis using st fr e1 e2 by simp
qed

subsection \<open>Reactive recovery: 401 (C3), 429 (C5, C9)\<close>

lemma authorizedFetch_401_first:
  assumes s1: "ensureFreshAccessToken c w = (Inr tok1, c1, w1)"
    and f1: "apiFetch (requestUrl input) (requestHeaders init tok1) w1 = (Answered r1, w2)"
    and u1: "status r1 = 401"
    and rf: "refreshAccessToken (tokens c1) w2 = (Inr refreshed, w3)"
  shows "authorizedFetch (Suc fuel) input init 0 c w
           = authorizedFetch fuel input init 1 (c1\<lparr> tokens := refreshed \<rparr>) w3"
  using assms by simp

lemma authorizedFetch_401_later:
  assumes s1: "ensureFreshAccessToken c w = (Inr tok1, c1, w1)"
    and f1: "apiFetch (requestUrl input) (requestHeaders init tok1) w1 = (Answered r1, w2)"
    and u1: "status r1 = 401" and a: "0 < attempt"
  shows "authorizedFetch (Suc fuel) input init attempt c w = (Some (Inr r1), c1, w2)"
  using assms by simp

lemma authorizedFetch_429:
  assumes s1: "ensureFreshAccessToken c w = (Inr tok1, c1, w1)"
    and f1: "apiFetch (requestUrl input) (requestHeaders init tok1) w1 = (Answered r1, w2)"
    and u1: "status r1 = 429"
  shows "authorizedFetch (Suc fuel) input init attempt c w
           = authorizedFetch fuel input init (attempt + 1) c1 (sleep (retryAfterMs r1) w2)"
  using assms by simp

text \<open>
  The claim C3 as stated, for any 401, fails: a 401 that comes after a 429 has been
  waited out arrives with \<open>attempt = 1\<close> and is returned with no refresh (no POST to the
  token endpoint) and no further request.
\<close>

theorem authorizedFetch_401_after_429_not_retried:
  "fst (authorizedFetch 5 ''/me'' demoInit 0 freshClient world429then401)
     = Some (Inr \<lparr> status = 401, retry_after = None \<rparr>) \<and>
   token_posts (snd (snd (authorizedFetch 5 ''/me'' demoInit 0 freshClient world429then401))) = 0 \<and>
   events (snd (snd (authorizedFetch 5 ''/me'' demoInit 0 freshClient world429then401)))
     = [ApiFetch ''https://api.spotify.com/v1/me'' [(''authorization'', ''Bearer good-access'')],
        Wait (Num 2000),
        ApiFetch ''https://api.spotify.com/v1/me'' [(''authorization'', ''Bearer good-access'')]]"
proof -
  have five: "(5::nat) = Suc (Suc (Suc (Suc (Suc 0))))" by simp
  have n: "retryAfterMs \<lparr> status = 429, retry_after = None \<rparr> = Num 2000"
    by (simp add: retryAfterMs_def Number_def isDigit_def decimalValue_def)
  show ?thesis
    unfolding five
    by (simp add: ensureFreshAccessToken_def freshClient_def staleTokens_def world429then401_def
          demoWorld_def apiFetch_def replyWith_def n sleep_def requestUrl_def API_BASE_def
          requestHeaders_def setHeader_def hasHeader_def demoInit_def)
qed

text \<open>
  Claim C3, amended. On the first attempt (\<open>attempt = 0\<close>, as \<^verbatim>\<open>get\<close>, \<^verbatim>\<open>post\<close> and \<^verbatim>\<open>put\<close> call the
  method) a 401 is followed by a refresh, whatever the expiry of the token, and by one
  more sending of the same request; when the answer to that is 401 again, this answer
  is the result, however many further requests the bound would allow: two requests were
  sent, no third. A 401 on any later attempt is returned at once.
\<close>

theorem authorizedFetch_single_retry_on_401:
  assumes s1: "ensureFreshAccessToken c w = (Inr tok1, c1, w1)"
    and f1: "apiFetch (requestUrl input) (requestHeaders init tok1) w1 = (Answered r1, w2)"
    and u1: "status r1 = 401"
    and rf: "refreshAccessToken (tokens c1) w2 = (Inr refreshed, w3)"
    and s2: "ensureFreshAccessToken (c1\<lparr> tokens := refreshed \<rparr>) w3 = (Inr tok2, c4, w4)"
    and f2: "apiFetch (requestUrl input) (requestHeaders init tok2) w4 = (Answered r2, w5)"
    and u2: "status r2 = 401"
  shows "authorizedFetch (Suc (Suc fuel)) input init 0 c w = (Some (Inr r2), c4, w5) \<and>
         api_fetches w5 = api_fetches w + 2 \<and>
         events w3 = events w2 @ [TokenPost ''refresh_token'' (refreshToken (tokens c1))] \<and>
         (\<forall>a. 0 < a \<longrightarrow> authorizedFetch (Suc fuel) input init a c w = (Some (Inr r1), c1, w2))"
proof -
  have "authorizedFetch (Suc (Suc fuel)) input init 0 c w
          = authorizedFetch (Suc fuel) input init 1 (c1\<lparr> tokens := refreshed \<rparr>) w3"
    by (rule authorizedFetch_401_first[OF s1 f1 u1 rf])
  also have "\<dots> = (Some (Inr r2), c4, w5)"
    by (rule authorizedFetch_401_later[OF s2 f2 u2]) simp
  finally have res: "authorizedFetch (Suc (Suc fuel)) input init 0 c w = (Some (Inr r2), c4, w5)" .
  have "api_fetches w1 = api_fetches w" by (rule ensureFresh_frame(4)[OF s1])
  moreover have "api_fetches w2 = Suc (api_fetches w1)"
    using f1 apiFetch_fields(6)[of "requestUrl input" "requestHeaders init tok1" w1] by simp
  moreover have "api_fetches w3 = api_fetches w2" by (rule refreshAccessToken_frame(4)[OF rf])
  moreover have "api_fetches w4 = api_fetches w3" by (rule ensureFresh_frame(4)[OF s2])
  moreover have "api_fetches w5 = Suc (api_fetches w4)"
    using f2 apiFetch_fields(6)[of "requestUrl input" "requestHeaders init tok2" w4] by simp
  ultimately have cnt: "api_fetches w5 = api_fetches w + 2" by simp
  have ev: "events w3 = events w2 @ [TokenPost ''refresh_token'' (refreshToken (tokens c1))]"
    using refreshAccessToken_frame(6)[OF rf refl] by blast
  have later: "\<forall>a. 0 < a \<longrightarrow> authorizedFetch (Suc fuel) input init a c w = (Some (Inr r1), c1, w2)"
    using authorizedFetch_401_later[OF s1 f1 u1] by blast
  show ?thesis using res cnt ev later by blast
qed

theorem authorizedFetch_single_retry_on_401_witness:
  "fst (authorizedFetch 5 ''/me'' demoInit 0 freshClient world401)
     = Some (Inr \<lparr> status = 401, retry_after = None \<rparr>) \<and>
   api_fetches (snd (snd (authorizedFetch 5 ''/me'' demoInit 0 freshClient world401))) = 2 \<and>
   token_posts (snd (snd (authorizedFetch 5 ''/me'' demoInit 0 freshClient world401))) = 1"
proof -
  let ?u = "requestUrl ''/me''"
  let ?r = "\<lparr> status = 401, retry_after = None \<rparr>"
  define w2 where "w2 = snd (apiFetch ?u (requestHeaders demoInit ''good-access'') world401)"
  define rr where "rr = refreshAccessToken (tokens freshClient) w2"
  define refreshed where "refreshed = \<lparr> accessToken = ''fresh-access'', refreshToken = ''new-refresh'',
      expiresAt = 4600005, scope = ''playlist-read-private'' \<rparr>"
  define w3 where "w3 = snd rr"
  define w5 where "w5 = snd (apiFetch ?u (requestHeaders demoInit ''fresh-access'') w3)"
  have s1: "ensureFreshAccessToken freshClient world401 = (Inr ''good-access'', freshClient, world401)"
    by (simp add: ensureFreshAccessToken_def freshClient_def staleTokens_def world401_def demoWorld_def)
  have f1: "apiFetch ?u (requestHeaders demoInit ''good-access'') world401 = (Answered ?r, w2)"
    by (simp add: w2_def apiFetch_def world401_def demoWorld_def replyWith_def)
  have w2f: "client_id w2 = Some ''client''" "token_endpoint w2 = grantingEndpoint"
    "token_posts w2 = 0" "now w2 = 1000000" "api_fetches w2 = 1"
    "resource_api w2 = (\<lambda>k. replyWith 401 None)"
    by (simp_all add: w2_def apiFetch_def world401_def demoWorld_def replyWith_def)
  have rf: "refreshAccessToken (tokens freshClient) w2 = (Inr refreshed, w3)"
    unfolding w3_def rr_def refreshed_def
    by (simp add: refreshAccessToken_def assertEnv_def postToken_def w2f grantingEndpoint_def
          buildTokenSet_def grantedReply_def freshClient_def staleTokens_def)
  have w3f: "now w3 = 1000005" "api_fetches w3 = 1" "resource_api w3 = (\<lambda>k. replyWith 401 None)"
    "token_posts w3 = 1"
    unfolding w3_def rr_def
    by (simp_all add: refreshAccessToken_def assertEnv_def postToken_def w2f grantingEndpoint_def
          buildTokenSet_def grantedReply_def freshClient_def staleTokens_def storeTokens_def)
  have s2: "ensureFreshAccessToken (freshClient\<lparr> tokens := refreshed \<rparr>) w3
              = (Inr ''fresh-access'', freshClient\<lparr> tokens := refreshed \<rparr>, w3)"
    by (simp add: ensureFreshAccessToken_def refreshed_def w3f)
  have f2: "apiFetch ?u (requestHeaders demoInit ''fresh-access'') w3 = (Answered ?r, w5)"
    by (simp add: w5_def apiFetch_def w3f replyWith_def)
  have tp: "token_posts w5 = 1"
    by (simp add: w5_def w3f)
  from authorizedFetch_single_retry_on_401[OF s1 f1 _ rf s2 f2, of 3]
  have "authorizedFetch (Suc (Suc 3)) ''/me'' demoInit 0 freshClient world401
          = (Some (Inr ?r), freshClient\<lparr> tokens := refreshed \<rparr>, w5)"
    and "api_fetches w5 = api_fetches world401 + 2"
    by simp_all
  moreover have "Suc (Suc 3) = 5" by simp
  ultimately show ?thesis using tp by (simp add: world401_def demoWorld_def)
qed

text \<open>
  Claim C5 holds for a missing header (2 seconds) and for a header of digits (that many
  seconds). For a header that is not a number it fails in the code: for the HTTP date
  that a \<^verbatim>\<open>Retry-After\<close> may carry the delay is NaN, the timer takes it as zero, and
  the request is sent again at once; no default of 2 seconds is applied.
\<close>

theorem retry_after_http_date_is_not_defaulted:
  "retryAfterMs \<lparr> status = 429, retry_after = None \<rparr> = Num 2000 \<and>
   retryAfterMs \<lparr> status = 429, retry_after = Some ''7'' \<rparr> = Num 7000 \<and>
   retryAfterMs \<lparr> status = 429, retry_after = Some ''Wed, 21 Oct 2015 07:28:00 GMT'' \<rparr> = NaN \<and>
   events (snd (snd (authorizedFetch 2 ''/me'' demoInit 0 freshClient worldHttpDate)))
     = [ApiFetch ''https://api.spotify.com/v1/me'' [(''authorization'', ''Bearer good-access'')],
        Wait NaN,
        ApiFetch ''https://api.spotify.com/v1/me'' [(''authorization'', ''Bearer good-access'')]] \<and>
   now (snd (snd (authorizedFetch 2 ''/me'' demoInit 0 freshClient worldHttpDate)))
     = now worldHttpDate"
proof -
  have n1: "retryAfterMs \<lparr> status = 429, retry_after = None \<rparr> = Num 2000"
    by (simp add: retryAfterMs_def Number_def isDigit_def decimalValue_def)
  have n2: "retryAfterMs \<lparr> status = 429, retry_after = Some ''7'' \<rparr> = Num 7000"
    by (simp add: retryAfterMs_def Number_def isDigit_def decimalValue_def)
  have n3: "retryAfterMs \<lparr> status = 429, retry_after = Some ''Wed, 21 Oct 2015 07:28:00 GMT'' \<rparr> = NaN"
    by (simp add: retryAfterMs_def Number_def isDigit_def)
  have two: "(2::nat) = Suc (Suc 0)" by simp
  have run: "events (snd (snd (authorizedFetch 2 ''/me'' demoInit 0 freshClient worldHttpDate)))
     = [ApiFetch ''https://api.spotify.com/v1/me'' [(''authorization'', ''Bearer good-access'')],
        Wait NaN,
        ApiFetch ''https://api.spotify.com/v1/me'' [(''authorization'', ''Bearer good-access'')]] \<and>
   now (snd (snd (authorizedFetch 2 ''/me'' demoInit 0 freshClient worldHttpDate)))
     = now worldHttpDate"
    unfolding two
    by (simp add: ensureFreshAccessToken_def freshClient_def staleTokens_def worldHttpDate_def
          demoWorld_def apiFetch_def replyWith_def n3 sleep_def requestUrl_def API_BASE_def
          requestHeaders_def setHeader_def hasHeader_def demoInit_def)
  show ?thesis using n1 n2 n3 run by simp
qed

lemma refreshAccessToken_granted:
  assumes "alwaysGrants w"
  shows "\<exists>ts w1. refreshAccessToken previous w = (Inr ts, w1)"
proof -
  obtain cid where cid: "client_id w = Some cid" "cid \<noteq> []"
    using assms unfolding alwaysGrants_def by blast
  obtain d data r where t: "token_endpoint w (token_posts w) = (d, TokenGranted data)"
      "refresh_token data = Some r" "r \<noteq> []"
    using assms unfolding alwaysGrants_def by blast
  then show ?thesis
    using cid by (simp add: refreshAccessToken_def assertEnv_def postToken_def buildTokenSet_def)
qed

lemma ensureFresh_granted:
  assumes "alwaysGrants w"
  shows "\<exists>tok c1 w1. ensureFreshAccessToken c w = (Inr tok, c1, w1)"
proof (cases "now w + 60000 < expiresAt (tokens c)")
  case True
  then show ?thesis by (simp add: ensureFresh_fresh)
next
  case False
  obtain ts w1 where "refreshAccessToken (tokens c) w = (Inr ts, w1)"
    using refreshAccessToken_granted[OF assms] by blast
  then show ?thesis using False by (simp add: ensureFresh_stale)
qed

lemma authorizedFetch_never_returns:
  "alwaysGrants w \<Longrightarrow> alwaysRateLimited w \<Longrightarrow>
     fst (authorizedFetch fuel input init attempt c w) = None \<and>
     api_fetches (snd (snd (authorizedFetch fuel input init attempt c w))) = api_fetches w + fuel"
proof (induction fuel arbitrary: attempt c w)
  case 0
  then show ?case by simp
next
  case (Suc fuel)
  obtain tok c1 w1 where e: "ensureFreshAccessToken c w = (Inr tok, c1, w1)"
    using ensureFresh_granted[OF Suc.prems(1)] by blast
  note fr = ensureFresh_frame[OF e]
  obtain d r where a: "resource_api w1 (api_fetches w1) = (d, Answered r)" "status r = 429"
    using Suc.prems(2) fr(3) unfolding alwaysRateLimited_def by metis
  let ?f = "apiFetch (requestUrl input) (requestHeaders init tok) w1"
  define w2 where "w2 = snd ?f"
  have f: "?f = (Answered r, w2)"
    using a(1) by (simp add: w2_def apiFetch_def)
  let ?w = "sleep (retryAfterMs r) w2"
  have g: "alwaysGrants ?w"
    using Suc.prems(1) fr(1,2) unfolding alwaysGrants_def w2_def by simp
  have l: "alwaysRateLimited ?w"
    using Suc.prems(2) fr(3) unfolding alwaysRateLimited_def w2_def by simp
  have n: "api_fetches ?w = Suc (api_fetches w)"
    using fr(4) by (simp add: w2_def)
  have step: "authorizedFetch (Suc fuel) input init attempt c w
                = authorizedFetch fuel input init (attempt + 1) c1 ?w"
    by (rule authorizedFetch_429[OF e f a(2)])
  show ?case
    unfolding step using Suc.IH[OF g l, of "attempt + 1" c1] n by simp
qed

text \<open>
  Claim C9. Whatever the attempt count, a 429 is followed by another sending of the
  request. So when the API answers 429 to everything (and the token endpoint grants
  whenever it is asked), the call has not returned after any number of requests:
  whatever bound \<open>fuel\<close> is put on the requests, all of them are sent and the call is still
  under way.
\<close>

theorem authorizedFetch_unbounded_on_429:
  assumes "alwaysGrants w" and "alwaysRateLimited w"
  shows "fst (authorizedFetch fuel input init attempt c w) = None \<and>
         api_fetches (snd (snd (authorizedFetch fuel input init attempt c w))) = api_fetches w + fuel \<and>
         (\<forall>v k tok c1 w1 r w2.
            ensureFreshAccessToken c v = (Inr tok, c1, w1) \<and>
            apiFetch (requestUrl input) (requestHeaders init tok) w1 = (Answered r, w2) \<and>
            status r = 429 \<longrightarrow>
            authorizedFetch (Suc k) input init attempt c v
              = authorizedFetch k input init (attempt + 1) c1 (sleep (retryAfterMs r) w2))"
  using authorizedFetch_never_returns[OF assms] authorizedFetch_429 by blast

theorem authorizedFetch_unbounded_on_429_witness:
  "alwaysGrants world429 \<and> alwaysRateLimited world429 \<and>
   fst (authorizedFetch 1000 ''/me'' demoInit 0 freshClient world429) = None \<and>
   api_fetches (snd (snd (authorizedFetch 1000 ''/me'' demoInit 0 freshClient world429))) = 1000"
proof -
  have g: "alwaysGrants world429"
    by (simp add: alwaysGrants_def world429_def demoWorld_def grantingEndpoint_def grantedReply_def)
  have l: "alwaysRateLimited world429"
    by (simp add: alwaysRateLimited_def world429_def demoWorld_def replyWith_def)
  from authorizedFetch_unbounded_on_429[OF g l, of 1000 "''/me''" demoInit 0 freshClient]
  show ?thesis using g l by (simp add: world429_def demoWorld_def)
qed

subsection \<open>Loading the stored record (C10)\<close>

lemma isString_iff: "isString p = (\<exists>s. p = Some (JString s))"
  by (cases p rule: isString.cases) simp_all

lemma tryParse_Some:
  "tryParse parse raw = Inr (Some v) \<Longrightarrow>
     parse raw = Some v \<and> hasStringProp v ''accessToken'' \<and> hasStringProp v ''refreshToken''"
  by (auto simp: tryParse_def hasStringProp_def split: option.splits sum.splits if_splits)

lemma tryParse_invalid:
  "parse raw = Some v \<Longrightarrow> \<not> (hasStringProp v ''accessToken'' \<and> hasStringProp v ''refreshToken'') \<Longrightarrow>
     tryParse parse raw = Inl TypeError \<or> tryParse parse raw = Inr None"
  by (cases v) (auto simp: tryParse_def hasStringProp_def split: option.splits sum.splits if_splits)

text \<open>
  Claim C10. \<^verbatim>\<open>loadStoredTokens\<close> returns for every stored entry, the exceptions of its
  \<^verbatim>\<open>try\<close> block being caught. It returns \<^verbatim>\<open>null\<close> when there is no entry or an empty one,
  when the entry does not parse, and when the parsed value lacks a string
  \<^verbatim>\<open>accessToken\<close> or a string \<^verbatim>\<open>refreshToken\<close> (\<^verbatim>\<open>null\<close>, on which the property read throws,
  included). What it returns otherwise is the parsed value, and its \<^verbatim>\<open>accessToken\<close> and
  \<^verbatim>\<open>refreshToken\<close> are strings; nothing else about the value is checked.
\<close>

theorem loadStoredTokens_validates:
  "(stored = None \<or> stored = Some [] \<longrightarrow> loadStoredTokens parse stored = None) \<and>
   (\<forall>raw. parse raw = None \<longrightarrow> loadStoredTokens parse (Some raw) = None) \<and>
   (\<forall>raw v. parse raw = Some v \<and>
        \<not> (hasStringProp v ''accessToken'' \<and> hasStringProp v ''refreshToken'') \<longrightarrow>
        loadStoredTokens parse (Some raw) = None) \<and>
   (\<forall>v. loadStoredTokens parse stored = Some v \<longrightarrow>
        (\<exists>raw a r. stored = Some raw \<and> raw \<noteq> [] \<and> parse raw = Some v \<and>
           readProp v ''accessToken'' = Inr (Some (JString a)) \<and>
           readProp v ''refreshToken'' = Inr (Some (JString r))))"
proof -
  have c1: "stored = None \<or> stored = Some [] \<longrightarrow> loadStoredTokens parse stored = None"
    by (auto simp: loadStoredTokens_def)
  have c2: "\<forall>raw. parse raw = None \<longrightarrow> loadStoredTokens parse (Some raw) = None"
    by (simp add: loadStoredTokens_def tryParse_def)
  have c3: "\<forall>raw v. parse raw = Some v \<and>
        \<not> (hasStringProp v ''accessToken'' \<and> hasStringProp v ''refreshToken'') \<longrightarrow>
        loadStoredTokens parse (Some raw) = None"
  proof (intro allI impI)
    fix raw v
    assume "parse raw = Some v \<and>
        \<not> (hasStringProp v ''accessToken'' \<and> hasStringProp v ''refreshToken'')"
    then have "tryParse parse raw = Inl TypeError \<or> tryParse parse raw = Inr None"
      using tryParse_invalid by blast
    then show "loadStoredTokens parse (Some raw) = None"
      by (auto simp: loadStoredTokens_def)
  qed
  have c4: "\<forall>v. loadStoredTokens parse stored = Some v \<longrightarrow>
        (\<exists>raw a r. stored = Some raw \<and> raw \<noteq> [] \<and> parse raw = Some v \<and>
           readProp v ''accessToken'' = Inr (Some (JString a)) \<and>
           readProp v ''refreshToken'' = Inr (Some (JString r)))"
  proof (intro allI impI)
    fix v assume l: "loadStoredTokens parse stored = Some v"
    then obtain raw where raw: "stored = Some raw" "raw \<noteq> []" "tryParse parse raw = Inr (Some v)"
      by (auto simp: loadStoredTokens_def split: option.splits if_splits sum.splits)
    from tryParse_Some[OF raw(3)] have p: "parse raw = Some v"
      and a: "hasStringProp v ''accessToken''" and r: "hasStringProp v ''refreshToken''"
      by simp_all
    from a obtain x where "readProp v ''accessToken'' = Inr (Some (JString x))"
      by (auto simp: hasStringProp_def isString_iff split: sum.splits)
    moreover from r obtain y where "readProp v ''refreshToken'' = Inr (Some (JString y))"
      by (auto simp: hasStringProp_def isString_iff split: sum.splits)
    ultimately show "\<exists>raw a r. stored = Some raw \<and> raw \<noteq> [] \<and> parse raw = Some v \<and>
           readProp v ''accessToken'' = Inr (Some (JString a)) \<and>
           readProp v ''refreshToken'' = Inr (Some (JString r))"
      using raw(1,2) p by blast
  qed
  show ?thesis by (intro conjI) (rule c1 c2 c3 c4)+
qed

theorem loadStoredTokens_validates_witness:
  \<open>loadStoredTokens demoParse (Some ''{"accessToken":"a","refreshToken":"r","expiresAt":"soon"}'')
     = Some (JObject [(''accessToken'', JString ''a''), (''refreshToken'', JString ''r''),
                      (''expiresAt'', JString ''soon'')]) \<and>
   loadStoredTokens demoParse (Some ''{"accessToken":"a","refreshToken":7}'') = None \<and>
   loadStoredTokens demoParse (Some ''null'') = None \<and>
   loadStoredTokens demoParse (Some ''[]'') = None \<and>
   loadStoredTokens demoParse (Some ''{not json'') = None \<and>
   loadStoredTokens demoParse (Some []) = None \<and>
   loadStoredTokens demoParse None = None\<close>
proof -
  let ?good = \<open>''{"accessToken":"a","refreshToken":"r","expiresAt":"soon"}''\<close>
  let ?half = \<open>''{"accessToken":"a","refreshToken":7}''\<close>
  have g: "loadStoredTokens demoParse (Some ?good)
     = Some (JObject [(''accessToken'', JString ''a''), (''refreshToken'', JString ''r''),
                      (''expiresAt'', JString ''soon'')])"
    by (simp add: loadStoredTokens_def tryParse_def demoParse_def)
  have p: "demoParse ?half = Some (JObject [(''accessToken'', JString ''a''), (''refreshToken'', JNumber 7)])"
      "demoParse ''null'' = Some JNull" "demoParse ''[]'' = Some (JArray [])"
      "demoParse ''{not json'' = None"
    by (simp_all add: demoParse_def)
  have n: "\<not> (hasStringProp (JObject [(''accessToken'', JString ''a''), (''refreshToken'', JNumber 7)]) ''accessToken''
             \<and> hasStringProp (JObject [(''accessToken'', JString ''a''), (''refreshToken'', JNumber 7)]) ''refreshToken'')"
      "\<not> (hasStringProp JNull ''accessToken'' \<and> hasStringProp JNull ''refreshToken'')"
      "\<not> (hasStringProp (JArray []) ''accessToken'' \<and> hasStringProp (JArray []) ''refreshToken'')"
    by (simp_all add: hasStringProp_def)
  note T = loadStoredTokens_validates[of "Some []" demoParse] loadStoredTokens_validates[of None demoParse]
  from T p n have
    "loadStoredTokens demoParse (Some ?half) = None"
    "loadStoredTokens demoParse (Some ''null'') = None"
    "loadStoredTokens demoParse (Some ''[]'') = None"
    "loadStoredTokens demoParse (Some ''{not json'') = None"
    "loadStoredTokens demoParse (Some []) = None"
    "loadStoredTokens demoParse None = None"
    by blast+
  then show ?thesis using g by simp
qed

end
